theory Spec2Isabelle
  imports Main "HOL-Library.Char_ord" "HOL-Library.Monad_Syntax"
begin

section \<open>The scanner of golox (cmd/myinterpreter/main.go)\<close>

text \<open>
  A shallow embedding of the tokenizer. A Go \<open>string\<close> is a sequence of bytes and the
  scanner reads it byte by byte, so a source is a \<open>string\<close> (a list of 8-bit \<open>char\<close>s).
  The cursor and the line number are Go \<open>int\<close>s that only count upwards, from 0 and
  from 1; the cursor never passes the length of the source and the line number never
  passes one more than the number of its newlines (lemma \<open>ScanTokens_turns_tracks\<close>), so
  they cannot overflow and they are natural numbers here.

  A Go run-time panic (an index or a slice bound out of range) is the value \<open>None\<close>:
  every function that indexes or slices returns an \<open>option\<close>.

  The package variable \<open>hadError\<close> and the two output streams are the record \<open>World\<close>,
  passed through every function that reports a diagnostic or prints.
\<close>

subsection \<open>Token kinds, literals, tokens\<close>

datatype TokenType =
    LEFT_PAREN | RIGHT_PAREN | LEFT_BRACE | RIGHT_BRACE
  | COMMA | DOT | MINUS | PLUS | SEMICOLON | SLASH | STAR
  | BANG | BANG_EQUAL | EQUAL | EQUAL_EQUAL
  | GREATER | GREATER_EQUAL | LESS | LESS_EQUAL
  | IDENTIFIER | STRING | NUMBER
  | AND | CLASS | ELSE | FALSE | FUN | FOR | IF | NIL | OR
  | PRINT | RETURN | SUPER | THIS | TRUE | VAR | WHILE
  | EOF

text \<open>The map \<open>keywords\<close> of the source (the name is a keyword of Isabelle).\<close>

definition keywords_map :: "string \<rightharpoonup> TokenType" where
  "keywords_map = map_of
     [(''and'', AND), (''class'', CLASS), (''else'', ELSE), (''false'', FALSE),
      (''for'', FOR), (''fun'', FUN), (''if'', IF), (''nil'', NIL), (''or'', OR),
      (''print'', PRINT), (''return'', RETURN), (''super'', SUPER), (''this'', THIS),
      (''true'', TRUE), (''var'', VAR), (''while'', WHILE)]"

text \<open>
  The three implementations of the interface \<open>LoxLiteral\<close>. The value of a \<open>LoxNumber\<close>
  is a float64; its type is the parameter \<open>'f\<close>, and \<open>strconv.ParseFloat\<close>, which makes
  it from the digits, is a parameter \<open>pf\<close> of the scanner.
\<close>

datatype 'f LoxLiteral = LoxString string | LoxNumber 'f | LoxEmptyLiteral

text \<open>The struct \<open>Token\<close>; its fields \<open>_type\<close>, \<open>lexeme\<close>, \<open>literal\<close>, \<open>line\<close>.\<close>

datatype 'f Token =
  Token (tok_type: TokenType) (tok_lexeme: string) (tok_literal: "'f LoxLiteral") (tok_line: nat)

record 'f Scanner =
  source :: string
  tokens :: "'f Token list"
  start :: nat
  current :: nat
  line :: nat

record World =
  hadError :: bool
  stdout :: string
  stderr :: string

subsection \<open>Reporting\<close>

text \<open>The verb \<open>%d\<close> of a line number: its decimal digits.\<close>

fun Itoa :: "nat \<Rightarrow> string" where
  "Itoa n = (if n < 10 then [char_of (48 + n)] else Itoa (n div 10) @ [char_of (48 + n mod 10)])"

declare Itoa.simps [simp del]

text \<open>
  The verb \<open>%c\<close> of a byte: the UTF-8 encoding of the code point with that number, one
  byte below 128 and two bytes from 128 to 255.
\<close>

definition fmt_c :: "char \<Rightarrow> string" where
  "fmt_c c = (if (of_char c :: nat) < 128 then [c]
     else [char_of (192 + (of_char c :: nat) div 64), char_of (128 + (of_char c :: nat) mod 64)])"

definition LoxReport :: "nat \<Rightarrow> string \<Rightarrow> string \<Rightarrow> World \<Rightarrow> World" where
  "LoxReport ln wher message w =
     w\<lparr>stderr := stderr w @ ''[line '' @ Itoa ln @ ''] Error'' @ wher @ '': '' @ message @ ''\<newline>'',
       hadError := True\<rparr>"

definition LoxError :: "nat \<Rightarrow> string \<Rightarrow> World \<Rightarrow> World" where
  "LoxError ln message w = LoxReport ln [] message w"

subsection \<open>The cursor\<close>

definition NewScanner :: "string \<Rightarrow> 'f Scanner" where
  "NewScanner src = \<lparr>source = src, tokens = [], start = 0, current = 0, line = 1\<rparr>"

definition isAtEnd :: "'f Scanner \<Rightarrow> bool" where
  "isAtEnd scan = (current scan \<ge> length (source scan))"

text \<open>\<open>s[i]\<close> panics when \<open>i\<close> is not below the length, \<open>s[a:b]\<close> unless \<open>a \<le> b \<le> len(s)\<close>.\<close>

definition index :: "string \<Rightarrow> nat \<Rightarrow> char option" where
  "index s i = (if i < length s then Some (s ! i) else None)"

definition slice :: "string \<Rightarrow> nat \<Rightarrow> nat \<Rightarrow> string option" where
  "slice s a b = (if a \<le> b \<and> b \<le> length s then Some (take (b - a) (drop a s)) else None)"

definition advance :: "'f Scanner \<Rightarrow> (char \<times> 'f Scanner) option" where
  "advance scan = do {
     ret \<leftarrow> index (source scan) (current scan);
     Some (ret, scan\<lparr>current := current scan + 1\<rparr>)
   }"

text \<open>
  In \<open>peek\<close> and \<open>match\<close> the read \<open>source[current]\<close> stands behind the test
  \<open>isAtEnd\<close>, so its index is below the length and the read cannot panic.
\<close>

definition peek :: "'f Scanner \<Rightarrow> char" where
  "peek scan = (if isAtEnd scan then CHR 0x00 else source scan ! current scan)"

text \<open>
  \<open>peekNext\<close> tests \<open>current + 1 > len(source)\<close>; with \<open>current + 1 = len(source)\<close>
  the test fails and the read \<open>source[current + 1]\<close> is out of range.
\<close>

definition peekNext :: "'f Scanner \<Rightarrow> char option" where
  "peekNext scan = (if current scan + 1 > length (source scan) then Some (CHR 0x00)
     else index (source scan) (current scan + 1))"

definition match :: "char \<Rightarrow> 'f Scanner \<Rightarrow> bool \<times> 'f Scanner" where
  "match expected scan =
     (if isAtEnd scan then (False, scan)
      else if source scan ! current scan \<noteq> expected then (False, scan)
      else (True, scan\<lparr>current := current scan + 1\<rparr>))"

definition isDigit :: "char \<Rightarrow> bool" where
  "isDigit char = (char \<ge> CHR ''0'' \<and> char \<le> CHR ''9'')"

definition isAlpha :: "char \<Rightarrow> bool" where
  "isAlpha char = ((char \<ge> CHR ''a'' \<and> char \<le> CHR ''z'') \<or>
     (char \<ge> CHR ''A'' \<and> char \<le> CHR ''Z'') \<or> char = CHR ''_'')"

definition isAlphaNumeric :: "char \<Rightarrow> bool" where
  "isAlphaNumeric char = (isAlpha char \<or> isDigit char)"

definition addTokenAndLiteral :: "TokenType \<Rightarrow> 'f LoxLiteral \<Rightarrow> 'f Scanner \<Rightarrow> 'f Scanner option" where
  "addTokenAndLiteral ty lit scan = do {
     text \<leftarrow> slice (source scan) (start scan) (current scan);
     Some (scan\<lparr>tokens := tokens scan @ [Token ty text lit (line scan)]\<rparr>)
   }"

definition addToken :: "TokenType \<Rightarrow> 'f Scanner \<Rightarrow> 'f Scanner option" where
  "addToken ty scan = addTokenAndLiteral ty LoxEmptyLiteral scan"

subsection \<open>The loops of the scanner\<close>

text \<open>
  Each \<open>for\<close> loop is a recursive function on the scanner; all of them stop at the end of
  the source, where \<open>peek\<close> gives the byte 0.
\<close>

text \<open>\<open>for scan.isDigit(scan.peek()) { scan.advance() }\<close>, twice in \<open>number\<close>.\<close>

function number_loop :: "'f Scanner \<Rightarrow> 'f Scanner option" where
  "number_loop scan =
     (if isDigit (peek scan) then do { (c, scan) \<leftarrow> advance scan; number_loop scan }
      else Some scan)"
  by pat_completeness auto
termination
  by (relation "measure (\<lambda>scan. length (source scan) - current scan)")
     (auto simp: advance_def index_def split: if_splits)

text \<open>\<open>for scan.isAlphaNumeric(scan.peek()) { scan.advance() }\<close> in \<open>identifier\<close>.\<close>

function identifier_loop :: "'f Scanner \<Rightarrow> 'f Scanner option" where
  "identifier_loop scan =
     (if isAlphaNumeric (peek scan) then do { (c, scan) \<leftarrow> advance scan; identifier_loop scan }
      else Some scan)"
  by pat_completeness auto
termination
  by (relation "measure (\<lambda>scan. length (source scan) - current scan)")
     (auto simp: advance_def index_def split: if_splits)

text \<open>\<open>for scan.peek() != '\n' && !scan.isAtEnd() { scan.advance() }\<close>, the comment.\<close>

function comment_loop :: "'f Scanner \<Rightarrow> 'f Scanner option" where
  "comment_loop scan =
     (if peek scan \<noteq> CHR 0x0A \<and> \<not> isAtEnd scan
      then do { (c, scan) \<leftarrow> advance scan; comment_loop scan }
      else Some scan)"
  by pat_completeness auto
termination
  by (relation "measure (\<lambda>scan. length (source scan) - current scan)")
     (auto simp: advance_def index_def split: if_splits)

text \<open>The loop of \<open>parseString\<close>, which counts the newlines it passes.\<close>

function parseString_loop :: "'f Scanner \<Rightarrow> 'f Scanner option" where
  "parseString_loop scan =
     (if peek scan \<noteq> CHR 0x22 \<and> \<not> isAtEnd scan
      then do {
        let scan = (if peek scan = CHR 0x0A then scan\<lparr>line := line scan + 1\<rparr> else scan);
        (c, scan) \<leftarrow> advance scan;
        parseString_loop scan
      }
      else Some scan)"
  by pat_completeness auto
termination
  by (relation "measure (\<lambda>scan. length (source scan) - current scan)")
     (auto simp: advance_def index_def split: if_splits)

declare number_loop.simps [simp del] identifier_loop.simps [simp del]
  comment_loop.simps [simp del] parseString_loop.simps [simp del]

subsection \<open>Literals and identifiers\<close>

text \<open>
  \<open>number\<close>: the operator \<open>&&\<close> evaluates \<open>peekNext\<close> only when the next byte is a dot.
  The error of \<open>ParseFloat\<close> is ignored by the code, so \<open>pf\<close> is a total function.
\<close>

definition number :: "(string \<Rightarrow> 'f) \<Rightarrow> 'f Scanner \<Rightarrow> 'f Scanner option" where
  "number pf scan = do {
     scan \<leftarrow> number_loop scan;
     frac \<leftarrow> (if peek scan = CHR ''.'' then map_option isDigit (peekNext scan) else Some False);
     scan \<leftarrow> (if frac then do { (c, scan) \<leftarrow> advance scan; number_loop scan } else Some scan);
     text \<leftarrow> slice (source scan) (start scan) (current scan);
     addTokenAndLiteral NUMBER (LoxNumber (pf text)) scan
   }"

text \<open>\<open>identifier\<close> (primed here: the name is a keyword of Isabelle).\<close>

definition identifier' :: "'f Scanner \<Rightarrow> 'f Scanner option" where
  "identifier' scan = do {
     scan \<leftarrow> identifier_loop scan;
     text \<leftarrow> slice (source scan) (start scan) (current scan);
     addToken (case keywords_map text of Some ty \<Rightarrow> ty | None \<Rightarrow> IDENTIFIER) scan
   }"

definition parseString :: "'f Scanner \<Rightarrow> World \<Rightarrow> ('f Scanner \<times> World) option" where
  "parseString scan w = do {
     scan \<leftarrow> parseString_loop scan;
     if isAtEnd scan then Some (scan, LoxError (line scan) ''Unterminated string.'' w)
     else do {
       (c, scan) \<leftarrow> advance scan;
       v \<leftarrow> (if current scan \<ge> 1 then slice (source scan) (start scan + 1) (current scan - 1) else None);
       scan \<leftarrow> addTokenAndLiteral STRING (LoxString v) scan;
       Some (scan, w)
     }
   }"

subsection \<open>One token\<close>

text \<open>A branch of the switch that reports nothing leaves the globals as they are.\<close>

definition no_report :: "World \<Rightarrow> 'a option \<Rightarrow> ('a \<times> World) option" where
  "no_report w r = map_option (\<lambda>scan. (scan, w)) r"

definition scanToken :: "(string \<Rightarrow> 'f) \<Rightarrow> 'f Scanner \<Rightarrow> World \<Rightarrow> ('f Scanner \<times> World) option" where
  "scanToken pf scan w = do {
     (char, scan) \<leftarrow> advance scan;
     if char = CHR ''('' then no_report w (addToken LEFT_PAREN scan)
     else if char = CHR '')'' then no_report w (addToken RIGHT_PAREN scan)
     else if char = CHR ''{'' then no_report w (addToken LEFT_BRACE scan)
     else if char = CHR ''}'' then no_report w (addToken RIGHT_BRACE scan)
     else if char = CHR '','' then no_report w (addToken COMMA scan)
     else if char = CHR ''.'' then no_report w (addToken DOT scan)
     else if char = CHR ''-'' then no_report w (addToken MINUS scan)
     else if char = CHR ''+'' then no_report w (addToken PLUS scan)
     else if char = CHR '';'' then no_report w (addToken SEMICOLON scan)
     else if char = CHR ''*'' then no_report w (addToken STAR scan)
     else if char = CHR ''!'' then
       (case match (CHR ''='') scan of (m, scan) \<Rightarrow>
          if m then no_report w (addToken BANG_EQUAL scan) else no_report w (addToken BANG scan))
     else if char = CHR ''='' then
       (case match (CHR ''='') scan of (m, scan) \<Rightarrow>
          if m then no_report w (addToken EQUAL_EQUAL scan) else no_report w (addToken EQUAL scan))
     else if char = CHR ''<'' then
       (case match (CHR ''='') scan of (m, scan) \<Rightarrow>
          if m then no_report w (addToken LESS_EQUAL scan) else no_report w (addToken LESS scan))
     else if char = CHR ''>'' then
       (case match (CHR ''='') scan of (m, scan) \<Rightarrow>
          if m then no_report w (addToken GREATER_EQUAL scan) else no_report w (addToken GREATER scan))
     else if char = CHR ''/'' then
       (case match (CHR ''/'') scan of (m, scan) \<Rightarrow>
          if m then no_report w (comment_loop scan) else no_report w (addToken SLASH scan))
     else if char = CHR '' '' \<or> char = CHR 0x0D \<or> char = CHR 0x09 then Some (scan, w)
     else if char = CHR 0x0A then Some (scan\<lparr>line := line scan + 1\<rparr>, w)
     else if char = CHR 0x22 then parseString scan w
     else if isDigit char then no_report w (number pf scan)
     else if isAlpha char then no_report w (identifier' scan)
     else Some (scan, LoxError (line scan) (''Unexpected character: '' @ fmt_c char) w)
   }"

subsection \<open>What the loops compute\<close>

lemma takeWhile_drop_step:
  "i < length s \<Longrightarrow> P (s ! i) \<Longrightarrow>
   takeWhile P (drop i s) = s ! i # takeWhile P (drop (Suc i) s)"
  by (simp flip: Cons_nth_drop_Suc)

lemma takeWhile_drop_stop:
  "i < length s \<Longrightarrow> \<not> P (s ! i) \<Longrightarrow> takeWhile P (drop i s) = []"
  by (simp flip: Cons_nth_drop_Suc)

lemma isDigit_0 [simp]: "\<not> isDigit (CHR 0x00)"
  by (simp add: isDigit_def)

lemma isAlphaNumeric_0 [simp]: "\<not> isAlphaNumeric (CHR 0x00)"
  by (simp add: isAlphaNumeric_def isAlpha_def isDigit_def)

lemma advance_eq:
  "current scan < length (source scan) \<Longrightarrow>
   advance scan = Some (source scan ! current scan, scan\<lparr>current := current scan + 1\<rparr>)"
  by (simp add: advance_def index_def)

lemma number_loop_eq:
  "number_loop scan =
   Some (scan\<lparr>current := current scan + length (takeWhile isDigit (drop (current scan) (source scan)))\<rparr>)"
proof (induction scan rule: number_loop.induct)
  case (1 scan)
  show ?case
  proof (cases "isDigit (peek scan)")
    case True
    then have lt: "current scan < length (source scan)" and d: "isDigit (source scan ! current scan)"
      by (auto simp: peek_def isAtEnd_def split: if_splits)
    from "1.IH" [OF True, of "(source scan ! current scan, scan\<lparr>current := current scan + 1\<rparr>)"]
    show ?thesis
      by (subst number_loop.simps) (simp add: True advance_eq [OF lt] takeWhile_drop_step [OF lt, of isDigit, OF d])
  next
    case False
    then show ?thesis
      by (subst number_loop.simps) (auto simp: peek_def isAtEnd_def takeWhile_drop_stop split: if_splits)
  qed
qed

lemma identifier_loop_eq:
  "identifier_loop scan =
   Some (scan\<lparr>current := current scan + length (takeWhile isAlphaNumeric (drop (current scan) (source scan)))\<rparr>)"
proof (induction scan rule: identifier_loop.induct)
  case (1 scan)
  show ?case
  proof (cases "isAlphaNumeric (peek scan)")
    case True
    then have lt: "current scan < length (source scan)"
      and d: "isAlphaNumeric (source scan ! current scan)"
      by (auto simp: peek_def isAtEnd_def split: if_splits)
    from "1.IH" [OF True, of "(source scan ! current scan, scan\<lparr>current := current scan + 1\<rparr>)"]
    show ?thesis
      by (subst identifier_loop.simps)
         (simp add: True advance_eq [OF lt] takeWhile_drop_step [OF lt, of isAlphaNumeric, OF d])
  next
    case False
    then show ?thesis
      by (subst identifier_loop.simps)
         (auto simp: peek_def isAtEnd_def takeWhile_drop_stop split: if_splits)
  qed
qed

lemma comment_loop_eq:
  "comment_loop scan =
   Some (scan\<lparr>current := current scan +
     length (takeWhile (\<lambda>c. c \<noteq> CHR 0x0A) (drop (current scan) (source scan)))\<rparr>)"
proof (induction scan rule: comment_loop.induct)
  case (1 scan)
  let ?go = "peek scan \<noteq> CHR 0x0A \<and> \<not> isAtEnd scan"
  show ?case
  proof (cases ?go)
    case True
    then have lt: "current scan < length (source scan)"
      and d: "source scan ! current scan \<noteq> CHR 0x0A"
      by (auto simp: peek_def isAtEnd_def split: if_splits)
    from "1.IH" [OF True, of "(source scan ! current scan, scan\<lparr>current := current scan + 1\<rparr>)"]
    show ?thesis
      by (subst comment_loop.simps)
         (simp add: True advance_eq [OF lt] takeWhile_drop_step [OF lt, of "\<lambda>c. c \<noteq> CHR 0x0A", OF d])
  next
    case False
    then show ?thesis
      by (subst comment_loop.simps)
         (auto simp: peek_def isAtEnd_def takeWhile_drop_stop split: if_splits)
  qed
qed

text \<open>
  The loop of \<open>parseString\<close> stops at the first \<open>"\<close> or at the end of the source, and
  has added to \<open>line\<close> the number of newlines among the bytes it passed.
\<close>

lemma parseString_loop_eq:
  "parseString_loop scan =
   Some (scan\<lparr>current := current scan +
       length (takeWhile (\<lambda>c. c \<noteq> CHR 0x22) (drop (current scan) (source scan))),
     line := line scan +
       length (filter (\<lambda>c. c = CHR 0x0A)
         (takeWhile (\<lambda>c. c \<noteq> CHR 0x22) (drop (current scan) (source scan))))\<rparr>)"
proof (induction scan rule: parseString_loop.induct)
  case (1 scan)
  let ?go = "peek scan \<noteq> CHR 0x22 \<and> \<not> isAtEnd scan"
  show ?case
  proof (cases ?go)
    case True
    then have lt: "current scan < length (source scan)"
      and d: "source scan ! current scan \<noteq> CHR 0x22"
      by (auto simp: peek_def isAtEnd_def split: if_splits)
    have pk: "peek scan = source scan ! current scan"
      using lt by (simp add: peek_def isAtEnd_def)
    let ?s1 = "if peek scan = CHR 0x0A then scan\<lparr>line := line scan + 1\<rparr> else scan"
    have adv: "advance ?s1 = Some (source scan ! current scan, ?s1\<lparr>current := current scan + 1\<rparr>)"
      using lt by (simp add: advance_def index_def)
    have step: "parseString_loop scan = parseString_loop (?s1\<lparr>current := current scan + 1\<rparr>)"
      by (subst parseString_loop.simps) (simp only: True adv Let_def if_True bind.bind_lunit prod.case simp_thms)
    note ih = "1.IH" [OF True refl adv refl]
    show ?thesis
      unfolding step ih
      by (simp add: pk takeWhile_drop_step [OF lt, of "\<lambda>c. c \<noteq> CHR 0x22", OF d])
  next
    case False
    then show ?thesis
      by (subst parseString_loop.simps)
         (auto simp: peek_def isAtEnd_def takeWhile_drop_stop split: if_splits)
  qed
qed

subsection \<open>The cursor only moves forward\<close>

lemma addTokenAndLiteral_Some:
  "addTokenAndLiteral ty lit scan = Some scan' \<Longrightarrow>
   source scan' = source scan \<and> current scan' = current scan \<and> start scan' = start scan \<and>
   line scan' = line scan"
  by (auto simp: addTokenAndLiteral_def split: bind_splits)

lemma addToken_Some:
  "addToken ty scan = Some scan' \<Longrightarrow>
   source scan' = source scan \<and> current scan' = current scan \<and> start scan' = start scan \<and>
   line scan' = line scan"
  unfolding addToken_def by (rule addTokenAndLiteral_Some)

lemma match_frame:
  "match c scan = (m, scan') \<Longrightarrow>
   source scan' = source scan \<and> current scan \<le> current scan' \<and> start scan' = start scan \<and>
   line scan' = line scan \<and> tokens scan' = tokens scan"
  by (auto simp: match_def split: if_splits)

lemma number_frame:
  "number pf scan = Some scan' \<Longrightarrow> source scan' = source scan \<and> current scan \<le> current scan'"
  by (auto simp: number_def number_loop_eq advance_def index_def
      dest!: addTokenAndLiteral_Some split: bind_splits if_splits)

lemma identifier_frame:
  "identifier' scan = Some scan' \<Longrightarrow> source scan' = source scan \<and> current scan \<le> current scan'"
  by (auto simp: identifier'_def identifier_loop_eq dest!: addToken_Some split: bind_splits)

lemma parseString_frame:
  "parseString scan w = Some (scan', w') \<Longrightarrow>
   source scan' = source scan \<and> current scan \<le> current scan'"
  by (auto simp: parseString_def parseString_loop_eq advance_def index_def
      dest!: addTokenAndLiteral_Some split: bind_splits if_splits)

lemma no_report_Some: "no_report w r = Some (x, w') \<longleftrightarrow> r = Some x \<and> w' = w"
  by (auto simp: no_report_def)

lemma scanToken_frame:
  assumes "scanToken pf scan w = Some (scan', w')"
  shows "source scan' = source scan \<and> current scan < current scan'"
proof -
  from assms obtain char s1 where adv: "advance scan = Some (char, s1)"
    by (auto simp: scanToken_def split: bind_splits)
  then have s1: "source s1 = source scan" "current s1 = current scan + 1"
    by (auto simp: advance_def split: bind_splits)
  have "source scan' = source s1 \<and> current s1 \<le> current scan'"
    using assms unfolding scanToken_def adv
    by (auto simp: no_report_Some comment_loop_eq
        dest!: addToken_Some match_frame number_frame identifier_frame parseString_frame
        split: if_splits prod.splits)
  with s1 show ?thesis by simp
qed

subsection \<open>The scan\<close>

function ScanTokens_loop :: "(string \<Rightarrow> 'f) \<Rightarrow> 'f Scanner \<Rightarrow> World \<Rightarrow> ('f Scanner \<times> World) option" where
  "ScanTokens_loop pf scan w =
     (if \<not> isAtEnd scan then do {
        let scan = scan\<lparr>start := current scan\<rparr>;
        (scan, w) \<leftarrow> scanToken pf scan w;
        ScanTokens_loop pf scan w
      }
      else Some (scan, w))"
  by pat_completeness auto
termination
proof (relation "measure (\<lambda>(pf, scan, w). length (source scan) - current scan)", goal_cases)
  case 1
  show ?case by simp
next
  case (2 pf scan w s0 r scan' w')
  then have "scanToken pf (scan\<lparr>start := current scan\<rparr>) w = Some (scan', w')"
    by simp
  from scanToken_frame [OF this] 2(1) show ?case
    by (auto simp: isAtEnd_def)
qed

declare ScanTokens_loop.simps [simp del]

definition ScanTokens :: "(string \<Rightarrow> 'f) \<Rightarrow> 'f Scanner \<Rightarrow> World \<Rightarrow> ('f Token list \<times> 'f Scanner \<times> World) option" where
  "ScanTokens pf scan w = do {
     (scan, w) \<leftarrow> ScanTokens_loop pf scan w;
     let tok = Token EOF [] LoxEmptyLiteral (line scan);
     let scan = scan\<lparr>tokens := tokens scan @ [tok]\<rparr>;
     Some (tokens scan, scan, w)
   }"

text \<open>
  The state after \<open>n\<close> turns of the loop of \<open>ScanTokens\<close>, when the scan gets that far:
  it names the places in a source at which a token starts.
\<close>

fun ScanTokens_turns :: "(string \<Rightarrow> 'f) \<Rightarrow> nat \<Rightarrow> 'f Scanner \<Rightarrow> World \<Rightarrow> ('f Scanner \<times> World) option" where
  "ScanTokens_turns pf 0 scan w = Some (scan, w)"
| "ScanTokens_turns pf (Suc n) scan w =
     (if \<not> isAtEnd scan then do {
        let scan = scan\<lparr>start := current scan\<rparr>;
        (scan, w) \<leftarrow> scanToken pf scan w;
        ScanTokens_turns pf n scan w
      }
      else None)"

subsection \<open>The driver\<close>

text \<open>
  The constants of \<open>TokenType\<close> are numbered by \<open>iota\<close>, from \<open>LEFT_PAREN = 0\<close> in the order
  of the declaration.
\<close>

fun TokenType_int :: "TokenType \<Rightarrow> nat" where
  "TokenType_int LEFT_PAREN = 0"
| "TokenType_int RIGHT_PAREN = 1"
| "TokenType_int LEFT_BRACE = 2"
| "TokenType_int RIGHT_BRACE = 3"
| "TokenType_int COMMA = 4"
| "TokenType_int DOT = 5"
| "TokenType_int MINUS = 6"
| "TokenType_int PLUS = 7"
| "TokenType_int SEMICOLON = 8"
| "TokenType_int SLASH = 9"
| "TokenType_int STAR = 10"
| "TokenType_int BANG = 11"
| "TokenType_int BANG_EQUAL = 12"
| "TokenType_int EQUAL = 13"
| "TokenType_int EQUAL_EQUAL = 14"
| "TokenType_int GREATER = 15"
| "TokenType_int GREATER_EQUAL = 16"
| "TokenType_int LESS = 17"
| "TokenType_int LESS_EQUAL = 18"
| "TokenType_int IDENTIFIER = 19"
| "TokenType_int STRING = 20"
| "TokenType_int NUMBER = 21"
| "TokenType_int AND = 22"
| "TokenType_int CLASS = 23"
| "TokenType_int ELSE = 24"
| "TokenType_int FALSE = 25"
| "TokenType_int FUN = 26"
| "TokenType_int FOR = 27"
| "TokenType_int IF = 28"
| "TokenType_int NIL = 29"
| "TokenType_int OR = 30"
| "TokenType_int PRINT = 31"
| "TokenType_int RETURN = 32"
| "TokenType_int SUPER = 33"
| "TokenType_int THIS = 34"
| "TokenType_int TRUE = 35"
| "TokenType_int VAR = 36"
| "TokenType_int WHILE = 37"
| "TokenType_int EOF = 38"

text \<open>
  The verb \<open>%s\<close> of a \<open>TokenType\<close> in \<open>Token.String\<close>. The type is declared as
  \<open>type TokenType int\<close> and has no method \<open>String\<close> (nor \<open>Error\<close> or \<open>Format\<close>), so \<open>fmt\<close>
  finds an integer under a verb for strings and writes its bad-verb form: \<open>%!s(\<close>, the
  name of the type, \<open>=\<close>, the value in decimal, \<open>)\<close>.
\<close>

definition fmt_s_TokenType :: "TokenType \<Rightarrow> string" where
  "fmt_s_TokenType ty = ''%!s(main.TokenType='' @ Itoa (TokenType_int ty) @ '')''"

text \<open>
  \<open>RawPrint\<close>: the verbs \<open>%q\<close> of a string and \<open>%v\<close> of a float64 are the library's,
  taken as the parameters \<open>fq\<close> and \<open>fv\<close>.
\<close>

definition RawPrint :: "(string \<Rightarrow> string) \<Rightarrow> ('f \<Rightarrow> string) \<Rightarrow> 'f LoxLiteral \<Rightarrow> string" where
  "RawPrint fq fv lit =
     (case lit of LoxString v \<Rightarrow> fq v | LoxNumber n \<Rightarrow> fv n | LoxEmptyLiteral \<Rightarrow> ''null'')"

definition Token_String :: "(string \<Rightarrow> string) \<Rightarrow> ('f \<Rightarrow> string) \<Rightarrow> 'f Token \<Rightarrow> string" where
  "Token_String fq fv tok =
     fmt_s_TokenType (tok_type tok) @ '' '' @ tok_lexeme tok @ '' '' @ RawPrint fq fv (tok_literal tok)"

text \<open>The loop of \<open>Run\<close>: \<open>fmt.Printf("%s\n", &tok)\<close> for each token in turn.\<close>

definition Run_print :: "(string \<Rightarrow> string) \<Rightarrow> ('f \<Rightarrow> string) \<Rightarrow> 'f Token list \<Rightarrow> World \<Rightarrow> World" where
  "Run_print fq fv toks w =
     fold (\<lambda>tok w. w\<lparr>stdout := stdout w @ Token_String fq fv tok @ ''\<newline>''\<rparr>) toks w"

definition Run :: "(string \<Rightarrow> 'f) \<Rightarrow> (string \<Rightarrow> string) \<Rightarrow> ('f \<Rightarrow> string) \<Rightarrow> string \<Rightarrow> World \<Rightarrow> World option" where
  "Run pf fq fv src w = do {
     (toks, scanner, w) \<leftarrow> ScanTokens pf (NewScanner src) w;
     Some (Run_print fq fv toks w)
   }"

text \<open>
  \<open>os.Exit\<close> ends the process inside \<open>RunFile\<close>; a function that may call it returns how
  it ended. \<open>os.ReadFile\<close> is the parameter \<open>fs\<close>: the text of the error or the contents.
\<close>

datatype flow = Return | Exit nat

definition RunFile ::
  "(string \<Rightarrow> 'f) \<Rightarrow> (string \<Rightarrow> string) \<Rightarrow> ('f \<Rightarrow> string) \<Rightarrow> (string \<Rightarrow> string + string) \<Rightarrow>
   string \<Rightarrow> World \<Rightarrow> (flow \<times> World) option" where
  "RunFile pf fq fv fs path w =
     (case fs path of
        Inl err \<Rightarrow> Some (Exit 1, w\<lparr>stderr := stderr w @ ''Error reading file: '' @ err @ ''\<newline>''\<rparr>)
      | Inr fileContents \<Rightarrow> map_option (Pair Return) (Run pf fq fv fileContents w))"

text \<open>The process starts with \<open>hadError = false\<close> and nothing written.\<close>

definition World0 :: World where
  "World0 = \<lparr>hadError = False, stdout = [], stderr = []\<rparr>"

text \<open>
  \<open>main\<close> on the arguments \<open>os.Args\<close>: the exit code and the final state, or \<open>None\<close> when
  the run panics. A \<open>main\<close> that returns ends the process with code 0.
\<close>

definition main ::
  "(string \<Rightarrow> 'f) \<Rightarrow> (string \<Rightarrow> string) \<Rightarrow> ('f \<Rightarrow> string) \<Rightarrow> string list \<Rightarrow>
   (string \<Rightarrow> string + string) \<Rightarrow> (nat \<times> World) option" where
  "main pf fq fv args fs =
     (let w = World0\<lparr>stderr := stderr World0 @ ''Logs from your program will appear here!\<newline>''\<rparr> in
      if length args < 3
      then Some (1, w\<lparr>stderr := stderr w @ ''Usage: ./your_program.sh tokenize <filename>\<newline>''\<rparr>)
      else
        let command = args ! 1 in
        if command \<noteq> ''tokenize''
        then Some (1, w\<lparr>stderr := stderr w @ ''Unknown command: '' @ command @ ''\<newline>''\<rparr>)
        else do {
          (r, w) \<leftarrow> RunFile pf fq fv fs (args ! 2) w;
          case r of
            Exit code \<Rightarrow> Some (code, w)
          | Return \<Rightarrow> if hadError w then Some (65, w) else Some (0, w)
        })"

subsection \<open>Lines of a source\<close>

text \<open>The number of newline bytes in a piece of source.\<close>

definition newlines :: "string \<Rightarrow> nat" where
  "newlines s = length (filter (\<lambda>c. c = CHR 0x0A) s)"

text \<open>
  The physical line (counted from 1) on which the byte at index \<open>i\<close> of a source stands:
  one more than the number of newlines before it.
\<close>

definition line_of :: "string \<Rightarrow> nat \<Rightarrow> nat" where
  "line_of src i = 1 + newlines (take i src)"

text \<open>
  A later state of a scanner keeps track of the lines: the source is the same, the cursor
  has moved forward within it, and \<open>line\<close> has grown by the number of newlines passed.
\<close>

definition tracks :: "'f Scanner \<Rightarrow> 'f Scanner \<Rightarrow> bool" where
  "tracks s s' \<longleftrightarrow>
     source s' = source s \<and> current s \<le> current s' \<and> current s' \<le> length (source s) \<and>
     line s' + newlines (take (current s) (source s)) = line s + newlines (take (current s') (source s))"

subsection \<open>The spec's reading of the end of a string literal\<close>

text \<open>
  The spec ends a string literal at "the next unescaped \<open>"\<close>". This is that sentence
  with the usual escape, a backslash that takes the following byte with it: the index
  of the first \<open>"\<close> that no backslash escapes. It is not part of the program; the
  scanner is compared with it.
\<close>

fun next_unescaped_quote :: "string \<Rightarrow> nat option" where
  "next_unescaped_quote [] = None"
| "next_unescaped_quote [c] = (if c = CHR 0x22 then Some 0 else None)"
| "next_unescaped_quote (c # d # cs) =
     (if c = CHR 0x22 then Some 0
      else if c = CHR 0x5C then map_option (\<lambda>n. n + 2) (next_unescaped_quote cs)
      else map_option Suc (next_unescaped_quote (d # cs)))"

subsection \<open>Sources that end in a digit and a dot\<close>

text \<open>
  The last two bytes of the source are a digit and a dot. Only on such a source can the
  read in \<open>peekNext\<close> leave the source.
\<close>

definition ends_in_digit_dot :: "string \<Rightarrow> bool" where
  "ends_in_digit_dot src \<longleftrightarrow>
     2 \<le> length src \<and> src ! (length src - 1) = CHR ''.'' \<and> isDigit (src ! (length src - 2))"

section \<open>Properties\<close>

subsection \<open>The globals do not steer the scan\<close>

lemma parseString_world:
  "parseString scan w = Some (scan', w') \<Longrightarrow>
   w' = w \<or> w' = LoxError (line scan') ''Unterminated string.'' w"
  by (auto simp: parseString_def split: bind_splits if_splits dest!: addTokenAndLiteral_Some)

lemma parseString_any_world:
  "map_option fst (parseString scan w1) = map_option fst (parseString scan w2)"
  by (auto simp: parseString_def parseString_loop_eq advance_def index_def split: bind_splits if_splits)

lemma no_report_fst: "map_option fst (no_report w r) = r"
  by (cases r) (simp_all add: no_report_def)

lemma scanToken_any_world:
  "map_option fst (scanToken pf scan w1) = map_option fst (scanToken pf scan w2)"
proof (cases "advance scan")
  case None
  then show ?thesis by (simp add: scanToken_def)
next
  case (Some a)
  obtain char s1 where a: "a = (char, s1)" by (cases a)
  show ?thesis
    unfolding scanToken_def Some a
    by (simp add: no_report_fst parseString_any_world [of s1 w1 w2] split: prod.splits)
qed

lemma ScanTokens_loop_any_world:
  "map_option fst (ScanTokens_loop pf scan w1) = map_option fst (ScanTokens_loop pf scan w2)"
proof (induction pf scan w1 arbitrary: w2 rule: ScanTokens_loop.induct)
  case (1 pf scan w1)
  show ?case
  proof (cases "isAtEnd scan")
    case True
    then show ?thesis by (simp add: ScanTokens_loop.simps)
  next
    case False
    let ?s = "scan\<lparr>start := current scan\<rparr>"
    show ?thesis
    proof (cases "scanToken pf ?s w1")
      case None
      with scanToken_any_world [of pf ?s w1 w2] have "scanToken pf ?s w2 = None" by simp
      with None False show ?thesis
        by (simp add: ScanTokens_loop.simps [of pf scan])
    next
      case (Some r)
      obtain s' w1' where r: "r = (s', w1')" by (cases r)
      with Some scanToken_any_world [of pf ?s w1 w2] obtain w2' where
        w2: "scanToken pf ?s w2 = Some (s', w2')"
        by (cases "scanToken pf ?s w2") auto
      from "1.IH" [OF False refl, of "(s', w1')" s' w1' w2'] Some r
      have "map_option fst (ScanTokens_loop pf s' w1') = map_option fst (ScanTokens_loop pf s' w2')"
        by simp
      with False Some r w2 show ?thesis
        by (simp add: ScanTokens_loop.simps [of pf scan])
    qed
  qed
qed

subsection \<open>The first byte picks the branch\<close>

lemma scanToken_quote:
  "current scan < length (source scan) \<Longrightarrow> source scan ! current scan = CHR 0x22 \<Longrightarrow>
   scanToken pf scan w = parseString (scan\<lparr>current := current scan + 1\<rparr>) w"
  by (simp add: scanToken_def advance_eq)

lemma isDigit_not_special:
  "isDigit c \<Longrightarrow> c \<notin> set ''(){},.-+;*!=<>/ '' \<and> c \<noteq> CHR 0x0D \<and> c \<noteq> CHR 0x09 \<and> c \<noteq> CHR 0x0A \<and> c \<noteq> CHR 0x22"
  by (auto simp: isDigit_def)

lemma isAlpha_not_special:
  "isAlpha c \<Longrightarrow> c \<notin> set ''(){},.-+;*!=<>/ '' \<and> c \<noteq> CHR 0x0D \<and> c \<noteq> CHR 0x09 \<and> c \<noteq> CHR 0x0A \<and> c \<noteq> CHR 0x22 \<and> \<not> isDigit c"
proof -
  assume a: "isAlpha c"
  then have "\<not> isDigit c"
    by (auto simp: isAlpha_def isDigit_def less_eq_char_def)
  moreover from a have "c \<notin> set ''(){},.-+;*!=<>/ '' \<and> c \<noteq> CHR 0x0D \<and> c \<noteq> CHR 0x09 \<and> c \<noteq> CHR 0x0A \<and> c \<noteq> CHR 0x22"
    by (auto simp: isAlpha_def)
  ultimately show ?thesis by simp
qed

lemma scanToken_digit:
  "current scan < length (source scan) \<Longrightarrow> isDigit (source scan ! current scan) \<Longrightarrow>
   scanToken pf scan w = no_report w (number pf (scan\<lparr>current := current scan + 1\<rparr>))"
  by (frule isDigit_not_special) (simp add: scanToken_def advance_eq)

lemma scanToken_alpha:
  "current scan < length (source scan) \<Longrightarrow> isAlpha (source scan ! current scan) \<Longrightarrow>
   scanToken pf scan w = no_report w (identifier' (scan\<lparr>current := current scan + 1\<rparr>))"
  by (frule isAlpha_not_special) (simp add: scanToken_def advance_eq)

lemma takeWhile_run:
  "\<forall>x\<in>set xs. P x \<Longrightarrow> ys = [] \<or> \<not> P (hd ys) \<Longrightarrow> takeWhile P (xs @ ys) = xs"
  by (cases ys) auto

subsection \<open>A string literal and a word, token by token\<close>

lemma string_token:
  assumes src: "source scan = pre @ CHR 0x22 # body @ CHR 0x22 # rest"
    and cur: "current scan = length pre"
    and body: "CHR 0x22 \<notin> set body"
  shows "scanToken pf (scan\<lparr>start := current scan\<rparr>) w =
    Some (scan\<lparr>start := length pre, current := length pre + length body + 2,
        line := line scan + newlines body,
        tokens := tokens scan @
          [Token STRING (CHR 0x22 # body @ [CHR 0x22]) (LoxString body) (line scan + newlines body)]\<rparr>, w)"
proof -
  have tw: "takeWhile (\<lambda>c. c \<noteq> CHR 0x22) (body @ CHR 0x22 # rest) = body"
    using body by (intro takeWhile_run) auto
  show ?thesis
    using src cur
    by (subst scanToken_quote)
       (simp_all add: parseString_def parseString_loop_eq tw isAtEnd_def advance_def index_def
         slice_def addTokenAndLiteral_def nth_append newlines_def)
qed

lemma identifier_token:
  assumes src: "source scan = pre @ word @ rest"
    and cur: "current scan = length pre"
    and word: "word \<noteq> []" "isAlpha (hd word)" "\<forall>c\<in>set word. isAlphaNumeric c"
    and rest: "rest = [] \<or> \<not> isAlphaNumeric (hd rest)"
  shows "scanToken pf (scan\<lparr>start := current scan\<rparr>) w =
    Some (scan\<lparr>start := length pre, current := length pre + length word,
        tokens := tokens scan @
          [Token (case keywords_map word of Some ty \<Rightarrow> ty | None \<Rightarrow> IDENTIFIER) word
             LoxEmptyLiteral (line scan)]\<rparr>, w)"
proof -
  from word obtain c cs where w: "word = c # cs" by (cases word) auto
  have tw: "takeWhile isAlphaNumeric (cs @ rest) = cs"
    using word rest w by (intro takeWhile_run) auto
  show ?thesis
    using src cur word(2)
    by (subst scanToken_alpha)
       (simp_all add: w identifier'_def identifier_loop_eq tw no_report_def
         slice_def addToken_def addTokenAndLiteral_def nth_append)
qed


subsection \<open>The line counter follows the cursor\<close>

lemma tracks_refl: "current s \<le> length (source s) \<Longrightarrow> tracks s s"
  by (simp add: tracks_def)

lemma tracks_trans: "tracks s s' \<Longrightarrow> tracks s' s'' \<Longrightarrow> tracks s s''"
  by (auto simp: tracks_def)

lemma take_takeWhile_drop:
  "take (i + length (takeWhile P (drop i s))) s = take i s @ takeWhile P (drop i s)"
  by (simp add: take_add flip: takeWhile_eq_take)

lemma newlines_append [simp]: "newlines (xs @ ys) = newlines xs + newlines ys"
  by (simp add: newlines_def)

lemma newlines_takeWhile:
  "(\<And>c. P c \<Longrightarrow> c \<noteq> CHR 0x0A) \<Longrightarrow> newlines (takeWhile P xs) = 0"
  by (auto simp: newlines_def filter_empty_conv dest: set_takeWhileD)

lemma takeWhile_drop_le: "i \<le> length s \<Longrightarrow> i + length (takeWhile P (drop i s)) \<le> length s"
  using length_takeWhile_le [of P "drop i s"] by simp

lemma tracks_loop:
  assumes "current s \<le> length (source s)" "\<And>c. P c \<Longrightarrow> c \<noteq> CHR 0x0A"
  shows "tracks s (s\<lparr>current := current s + length (takeWhile P (drop (current s) (source s)))\<rparr>)"
  using assms by (simp add: tracks_def take_takeWhile_drop newlines_takeWhile takeWhile_drop_le)

lemma tracks_step:
  assumes "current s < length (source s)" "source s ! current s \<noteq> CHR 0x0A"
  shows "tracks s (s\<lparr>current := current s + 1\<rparr>)"
  using assms by (simp add: tracks_def take_Suc_conv_app_nth newlines_def)

lemma tracks_newline:
  assumes "current s < length (source s)" "source s ! current s = CHR 0x0A"
  shows "tracks s (s\<lparr>current := current s + 1, line := line s + 1\<rparr>)"
  using assms by (simp add: tracks_def take_Suc_conv_app_nth newlines_def)

lemma tracks_string_loop:
  assumes "current s \<le> length (source s)"
  shows "tracks s (s\<lparr>current := current s + length (takeWhile P (drop (current s) (source s))),
     line := line s + newlines (takeWhile P (drop (current s) (source s)))\<rparr>)"
  using assms by (simp add: tracks_def take_takeWhile_drop takeWhile_drop_le)

lemma tracks_cong:
  "tracks s s' \<Longrightarrow> source t = source s' \<Longrightarrow> current t = current s' \<Longrightarrow> line t = line s' \<Longrightarrow> tracks s t"
  by (simp add: tracks_def)

lemma tracks_cong_left:
  "tracks s s' \<Longrightarrow> source t = source s \<Longrightarrow> current t = current s \<Longrightarrow> line t = line s \<Longrightarrow> tracks t s'"
  by (simp add: tracks_def)

lemma addTokenAndLiteral_tracks:
  "addTokenAndLiteral ty lit s = Some s' \<Longrightarrow> current s \<le> length (source s) \<Longrightarrow> tracks s s'"
  by (drule addTokenAndLiteral_Some) (simp add: tracks_def)

lemma addToken_tracks:
  "addToken ty s = Some s' \<Longrightarrow> current s \<le> length (source s) \<Longrightarrow> tracks s s'"
  by (drule addToken_Some) (simp add: tracks_def)

lemma match_tracks:
  assumes "match c s = (m, s')" "c \<noteq> CHR 0x0A" "current s \<le> length (source s)"
  shows "tracks s s'"
  using assms tracks_step [of s]
  by (auto simp: match_def isAtEnd_def tracks_refl split: if_splits)

lemma number_tracks:
  assumes "number pf s = Some s'" "current s \<le> length (source s)"
  shows "tracks s s'"
proof -
  have nd: "\<And>c. isDigit c \<Longrightarrow> c \<noteq> CHR 0x0A" by (auto simp: isDigit_def)
  let ?s1 = "s\<lparr>current := current s + length (takeWhile isDigit (drop (current s) (source s)))\<rparr>"
  have t1: "tracks s ?s1" using assms(2) nd by (rule tracks_loop)
  then have le1: "current ?s1 \<le> length (source ?s1)" by (simp add: tracks_def)
  show ?thesis
  proof (cases "peek ?s1 = CHR ''.'' \<and> map_option isDigit (peekNext ?s1) = Some True")
    case True
    then have lt: "current ?s1 < length (source ?s1)" and dot: "source ?s1 ! current ?s1 = CHR ''.''"
      by (auto simp: peek_def isAtEnd_def split: if_splits)
    let ?s2 = "?s1\<lparr>current := current ?s1 + 1\<rparr>"
    have t2: "tracks ?s1 ?s2" using lt dot by (intro tracks_step) auto
    then have le2: "current ?s2 \<le> length (source ?s2)" by (simp add: tracks_def)
    let ?s3 = "?s2\<lparr>current := current ?s2 + length (takeWhile isDigit (drop (current ?s2) (source ?s2)))\<rparr>"
    have t3: "tracks ?s2 ?s3" using le2 nd by (rule tracks_loop)
    have t: "tracks s ?s3" using t1 t2 t3 by (blast intro: tracks_trans)
    from assms(1) True lt obtain lx where "addTokenAndLiteral NUMBER (LoxNumber (pf lx)) ?s3 = Some s'"
      by (auto simp: number_def number_loop_eq advance_def index_def split: bind_splits if_splits)
    from addTokenAndLiteral_Some [OF this] t show ?thesis
      by (auto intro: tracks_cong)
  next
    case False
    with assms(1) obtain lx where "addTokenAndLiteral NUMBER (LoxNumber (pf lx)) ?s1 = Some s'"
      by (auto simp: number_def number_loop_eq split: bind_splits if_splits)
    from addTokenAndLiteral_Some [OF this] t1 show ?thesis
      by (auto intro: tracks_cong)
  qed
qed

lemma identifier_tracks:
  assumes "identifier' s = Some s'" "current s \<le> length (source s)"
  shows "tracks s s'"
proof -
  have nd: "\<And>c. isAlphaNumeric c \<Longrightarrow> c \<noteq> CHR 0x0A"
    by (auto simp: isAlphaNumeric_def isAlpha_def isDigit_def)
  let ?s1 = "s\<lparr>current := current s + length (takeWhile isAlphaNumeric (drop (current s) (source s)))\<rparr>"
  have t1: "tracks s ?s1" using assms(2) nd by (rule tracks_loop)
  from assms(1) obtain ty where "addToken ty ?s1 = Some s'"
    by (auto simp: identifier'_def identifier_loop_eq split: bind_splits)
  from addToken_Some [OF this] t1 show ?thesis
    by (auto intro: tracks_cong)
qed

lemma comment_tracks:
  assumes "comment_loop s = Some s'" "current s \<le> length (source s)"
  shows "tracks s s'"
  using assms tracks_loop [of s "\<lambda>c. c \<noteq> CHR 0x0A"] by (auto simp: comment_loop_eq)

lemma parseString_tracks:
  assumes "parseString s w = Some (s', w')" "current s \<le> length (source s)"
  shows "tracks s s'"
proof -
  let ?P = "\<lambda>c. c \<noteq> CHR 0x22"
  let ?s1 = "s\<lparr>current := current s + length (takeWhile ?P (drop (current s) (source s))),
     line := line s + newlines (takeWhile ?P (drop (current s) (source s)))\<rparr>"
  have t1: "tracks s ?s1" using assms(2) by (rule tracks_string_loop)
  have loop: "parseString_loop s = Some ?s1"
    by (simp add: parseString_loop_eq newlines_def)
  show ?thesis
  proof (cases "isAtEnd ?s1")
    case True
    with assms(1) loop have "s' = ?s1" by (simp add: parseString_def)
    with t1 show ?thesis by simp
  next
    case False
    then have lt: "current ?s1 < length (source ?s1)" by (simp add: isAtEnd_def)
    have "source ?s1 ! current ?s1 = CHR 0x22"
      using lt nth_length_takeWhile [of ?P "drop (current s) (source s)"]
      by (simp add: add.commute)
    then have t2: "tracks ?s1 (?s1\<lparr>current := current ?s1 + 1\<rparr>)"
      using lt by (intro tracks_step) auto
    from assms(1) loop False lt obtain v where
      "addTokenAndLiteral STRING (LoxString v) (?s1\<lparr>current := current ?s1 + 1\<rparr>) = Some s'"
      by (auto simp: parseString_def advance_def index_def split: bind_splits if_splits)
    from addTokenAndLiteral_Some [OF this] tracks_trans [OF t1 t2] show ?thesis
      by (auto intro: tracks_cong)
  qed
qed


lemma tracks_le: "tracks s s' \<Longrightarrow> current s' \<le> length (source s')"
  by (simp add: tracks_def)

lemma match_then_addToken_tracks:
  assumes "match c s = (m, s2)" "c \<noteq> CHR 0x0A" "current s \<le> length (source s)"
    and "addToken ty s2 = Some s'"
  shows "tracks s s'"
proof -
  have t: "tracks s s2" using assms(1-3) by (rule match_tracks)
  from tracks_trans [OF t addToken_tracks [OF assms(4) tracks_le [OF t]]] show ?thesis .
qed

lemma match_then_comment_tracks:
  assumes "match c s = (m, s2)" "c \<noteq> CHR 0x0A" "current s \<le> length (source s)"
    and "comment_loop s2 = Some s'"
  shows "tracks s s'"
proof -
  have t: "tracks s s2" using assms(1-3) by (rule match_tracks)
  from tracks_trans [OF t comment_tracks [OF assms(4) tracks_le [OF t]]] show ?thesis .
qed

lemma scanToken_tracks:
  assumes "scanToken pf s w = Some (s', w')"
  shows "tracks s s'"
proof -
  from assms obtain char s1 where adv: "advance s = Some (char, s1)"
    by (auto simp: scanToken_def split: bind_splits)
  then have lt: "current s < length (source s)" and char: "char = source s ! current s"
    and s1: "s1 = s\<lparr>current := current s + 1\<rparr>"
    by (auto simp: advance_def index_def split: bind_splits if_splits)
  have le1: "current s1 \<le> length (source s1)" using lt s1 by simp
  show ?thesis
  proof (cases "char = CHR 0x0A")
    case True
    with assms adv s1 have "s' = s\<lparr>current := current s + 1, line := line s + 1\<rparr>"
      by (simp add: scanToken_def)
    with tracks_newline [OF lt] True char show ?thesis by simp
  next
    case False
    with char have "source s ! current s \<noteq> CHR 0x0A" by simp
    from tracks_step [OF lt this] s1 have t1: "tracks s s1" by simp
    have "tracks s1 s'"
      using assms False le1 unfolding scanToken_def adv
      by (auto simp: no_report_Some tracks_refl split: if_splits prod.splits
          intro: addToken_tracks match_then_addToken_tracks match_then_comment_tracks
            number_tracks identifier_tracks parseString_tracks)
    with t1 show ?thesis by (rule tracks_trans)
  qed
qed

lemma ScanTokens_turns_tracks:
  "ScanTokens_turns pf n s w = Some (s', w') \<Longrightarrow> current s \<le> length (source s) \<Longrightarrow> tracks s s'"
proof (induction n arbitrary: s w)
  case 0
  then show ?case by (simp add: tracks_refl)
next
  case (Suc n)
  from Suc.prems(1) obtain s1 w1 where
    st: "scanToken pf (s\<lparr>start := current s\<rparr>) w = Some (s1, w1)"
    and rest: "ScanTokens_turns pf n s1 w1 = Some (s', w')"
    by (auto split: if_splits bind_splits)
  have "tracks (s\<lparr>start := current s\<rparr>) s1" using st by (rule scanToken_tracks)
  then have t: "tracks s s1" by (rule tracks_cong_left) simp_all
  from tracks_trans [OF t Suc.IH [OF rest tracks_le [OF t]]] show ?case .
qed

lemma ScanTokens_turns_loop:
  "ScanTokens_turns pf n s w = Some (s', w') \<Longrightarrow> ScanTokens_loop pf s w = ScanTokens_loop pf s' w'"
proof (induction n arbitrary: s w)
  case 0
  then show ?case by simp
next
  case (Suc n)
  from Suc.prems obtain s1 w1 where
    ne: "\<not> isAtEnd s"
    and st: "scanToken pf (s\<lparr>start := current s\<rparr>) w = Some (s1, w1)"
    and rest: "ScanTokens_turns pf n s1 w1 = Some (s', w')"
    by (auto split: if_splits bind_splits)
  from Suc.IH [OF rest] ne st show ?case
    by (subst ScanTokens_loop.simps) simp
qed

lemma reached_from_NewScanner:
  assumes "ScanTokens_turns pf n (NewScanner src) w0 = Some (s, w)"
  shows "source s = src \<and> current s \<le> length src \<and> line s = 1 + newlines (take (current s) src)"
  using ScanTokens_turns_tracks [OF assms] by (simp add: tracks_def NewScanner_def newlines_def)


subsection \<open>What a run writes, and its exit code\<close>

lemma LoxError_fields [simp]:
  "hadError (LoxError ln msg w)"
  "stdout (LoxError ln msg w) = stdout w"
  "stderr (LoxError ln msg w) = stderr w @ ''[line '' @ Itoa ln @ ''] Error: '' @ msg @ ''\<newline>''"
  by (simp_all add: LoxError_def LoxReport_def)

lemma scanToken_world:
  assumes "scanToken pf s w = Some (s', w')"
  shows "w' = w \<or> (\<exists>ln msg. w' = LoxError ln msg w)"
proof -
  from assms obtain char s1 where adv: "advance s = Some (char, s1)"
    by (auto simp: scanToken_def split: bind_splits)
  show ?thesis
    using assms unfolding scanToken_def adv
    by (auto simp: no_report_Some split: if_splits prod.splits dest: parseString_world)
qed

lemma ScanTokens_loop_world:
  "ScanTokens_loop pf s w = Some (s', w') \<Longrightarrow>
   stdout w' = stdout w \<and>
   (\<exists>extra. stderr w' = stderr w @ extra \<and> hadError w' = (hadError w \<or> extra \<noteq> []))"
proof (induction pf s w rule: ScanTokens_loop.induct)
  case (1 pf scan w)
  show ?case
  proof (cases "isAtEnd scan")
    case True
    with "1.prems" show ?thesis by (simp add: ScanTokens_loop.simps)
  next
    case False
    with "1.prems" obtain s1 w1 where
      st: "scanToken pf (scan\<lparr>start := current scan\<rparr>) w = Some (s1, w1)"
      and rest: "ScanTokens_loop pf s1 w1 = Some (s', w')"
      by (subst (asm) ScanTokens_loop.simps) (auto split: bind_splits)
    from "1.IH" [OF False refl st refl rest]
    obtain extra where ih: "stdout w' = stdout w1" "stderr w' = stderr w1 @ extra"
      "hadError w' = (hadError w1 \<or> extra \<noteq> [])"
      by blast
    from scanToken_world [OF st] show ?thesis
    proof
      assume "w1 = w"
      with ih show ?thesis by simp
    next
      assume "\<exists>ln msg. w1 = LoxError ln msg w"
      then obtain ln msg where "w1 = LoxError ln msg w" by blast
      with ih show ?thesis by simp
    qed
  qed
qed

lemma ScanTokens_world:
  assumes "ScanTokens pf s w = Some (toks, s', w')"
  shows "stdout w' = stdout w \<and>
   (\<exists>extra. stderr w' = stderr w @ extra \<and> hadError w' = (hadError w \<or> extra \<noteq> []))"
proof -
  from assms obtain s1 where "ScanTokens_loop pf s w = Some (s1, w')"
    by (auto simp: ScanTokens_def Let_def split: bind_splits)
  then show ?thesis by (rule ScanTokens_loop_world)
qed

lemma Run_print_fields:
  "hadError (Run_print fq fv toks w) = hadError w"
  "stderr (Run_print fq fv toks w) = stderr w"
  "stdout (Run_print fq fv toks w) =
     stdout w @ concat (map (\<lambda>tok. Token_String fq fv tok @ ''\<newline>'') toks)"
  unfolding Run_print_def by (induction toks arbitrary: w) simp_all

lemma main_tokenize:
  assumes "3 \<le> length args" "args ! 1 = ''tokenize''" "fs (args ! 2) = Inr src"
    and "ScanTokens pf (NewScanner src)
          (World0\<lparr>stderr := ''Logs from your program will appear here!\<newline>''\<rparr>) = Some (toks, scanner, w')"
  shows "main pf fq fv args fs = Some (if hadError w' then 65 else 0, Run_print fq fv toks w')"
  using assms by (simp add: main_def RunFile_def Run_def World0_def Run_print_fields)

lemma ScanTokens_turns_any_world:
  "ScanTokens_turns pf n s w1 = Some (s', w1') \<Longrightarrow> \<exists>w2'. ScanTokens_turns pf n s w2 = Some (s', w2')"
proof (induction n arbitrary: s w1 w2)
  case 0
  then show ?case by simp
next
  case (Suc n)
  let ?s = "s\<lparr>start := current s\<rparr>"
  from Suc.prems obtain s1 w1a where
    ne: "\<not> isAtEnd s"
    and st: "scanToken pf ?s w1 = Some (s1, w1a)"
    and rest: "ScanTokens_turns pf n s1 w1a = Some (s', w1')"
    by (auto split: if_splits bind_splits)
  from st scanToken_any_world [of pf ?s w1 w2] obtain w2a where
    st2: "scanToken pf ?s w2 = Some (s1, w2a)"
    by (cases "scanToken pf ?s w2") auto
  from Suc.IH [OF rest, of w2a] ne st2 show ?case by simp
qed

lemma unterminated_token:
  assumes src: "source scan = pre @ CHR 0x22 # body"
    and cur: "current scan = length pre"
    and body: "CHR 0x22 \<notin> set body"
  shows "scanToken pf (scan\<lparr>start := current scan\<rparr>) w =
    Some (scan\<lparr>start := length pre, current := length (source scan), line := line scan + newlines body\<rparr>,
      LoxError (line scan + newlines body) ''Unterminated string.'' w)"
proof -
  have tw: "takeWhile (\<lambda>c. c \<noteq> CHR 0x22) body = body"
    using body by auto
  show ?thesis
    using src cur
    by (subst scanToken_quote)
       (simp_all add: parseString_def parseString_loop_eq tw isAtEnd_def nth_append newlines_def)
qed

lemma unterminated_scan:
  assumes reach: "ScanTokens_turns pf n (NewScanner src) w0 = Some (scan, w)"
    and src: "src = pre @ CHR 0x22 # body"
    and cur: "current scan = length pre"
    and body: "CHR 0x22 \<notin> set body"
  shows "ScanTokens pf (NewScanner src) w0 =
    Some (tokens scan @ [Token EOF [] LoxEmptyLiteral (1 + newlines src)],
      scan\<lparr>start := length pre, current := length src, line := 1 + newlines src,
        tokens := tokens scan @ [Token EOF [] LoxEmptyLiteral (1 + newlines src)]\<rparr>,
      LoxError (1 + newlines src) ''Unterminated string.'' w)"
proof -
  from reached_from_NewScanner [OF reach] cur src
  have s: "source scan = src" and ln: "line scan = 1 + newlines pre"
    by simp_all
  have nl: "line scan + newlines body = 1 + newlines src"
    using ln src by (simp add: newlines_def)
  let ?s' = "scan\<lparr>start := length pre, current := length src, line := 1 + newlines src\<rparr>"
  let ?w' = "LoxError (1 + newlines src) ''Unterminated string.'' w"
  from unterminated_token [OF s [unfolded src] cur body, of pf w] s src nl
  have st: "scanToken pf (scan\<lparr>start := current scan\<rparr>) w = Some (?s', ?w')"
    by simp
  have ne: "\<not> isAtEnd scan" using s src cur by (simp add: isAtEnd_def)
  have "ScanTokens_loop pf scan w = ScanTokens_loop pf ?s' ?w'"
    using ne st by (subst ScanTokens_loop.simps) simp
  also have "\<dots> = Some (?s', ?w')"
    using s by (subst ScanTokens_loop.simps) (simp add: isAtEnd_def)
  finally have "ScanTokens_loop pf (NewScanner src) w0 = Some (?s', ?w')"
    using ScanTokens_turns_loop [OF reach] by simp
  then show ?thesis by (simp add: ScanTokens_def Let_def)
qed


subsection \<open>The keyword table; a whole scan, turn by turn\<close>

lemma isAlpha_iff:
  "isAlpha c \<longleftrightarrow> c \<in> set ''abcdefghijklmnopqrstuvwxyzABCDEFGHIJKLMNOPQRSTUVWXYZ_''"
proof -
  have "\<forall>c. isAlpha c = (c \<in> set ''abcdefghijklmnopqrstuvwxyzABCDEFGHIJKLMNOPQRSTUVWXYZ_'')"
    by code_simp
  then show ?thesis by blast
qed

lemma isAlphaNumeric_iff:
  "isAlphaNumeric c \<longleftrightarrow> c \<in> set ''abcdefghijklmnopqrstuvwxyzABCDEFGHIJKLMNOPQRSTUVWXYZ_0123456789''"
proof -
  have "\<forall>c. isAlphaNumeric c = (c \<in> set ''abcdefghijklmnopqrstuvwxyzABCDEFGHIJKLMNOPQRSTUVWXYZ_0123456789'')"
    by code_simp
  then show ?thesis by blast
qed

lemma keywords_map_not_IDENTIFIER: "keywords_map word \<noteq> Some IDENTIFIER"
  by (simp add: keywords_map_def)

lemma keywords_map_not_EOF: "keywords_map word \<noteq> Some EOF"
  by (simp add: keywords_map_def)

lemma dom_keywords_map:
  "dom keywords_map = {''and'', ''class'', ''else'', ''false'', ''for'', ''fun'', ''if'', ''nil'',
     ''or'', ''print'', ''return'', ''super'', ''this'', ''true'', ''var'', ''while''}"
  unfolding keywords_map_def dom_map_of_conv_image_fst by simp

lemma ScanTokens_loop_turn:
  "\<not> isAtEnd s \<Longrightarrow> scanToken pf (s\<lparr>start := current s\<rparr>) w = Some (s', w') \<Longrightarrow>
   ScanTokens_loop pf s w = ScanTokens_loop pf s' w'"
  by (subst ScanTokens_loop.simps) simp

lemma ScanTokens_loop_end: "isAtEnd s \<Longrightarrow> ScanTokens_loop pf s w = Some (s, w)"
  by (subst ScanTokens_loop.simps) simp

lemma scan_forest:
  "ScanTokens pf (NewScanner ''forest'') w =
   Some ([Token IDENTIFIER ''forest'' LoxEmptyLiteral 1, Token EOF [] LoxEmptyLiteral 1],
     \<lparr>source = ''forest'',
      tokens = [Token IDENTIFIER ''forest'' LoxEmptyLiteral 1, Token EOF [] LoxEmptyLiteral 1],
      start = 0, current = 6, line = 1\<rparr>, w)"
proof -
  let ?s = "NewScanner ''forest'' :: 'a Scanner"
  have "scanToken pf (?s\<lparr>start := current ?s\<rparr>) w =
    Some (?s\<lparr>start := length ([] :: string), current := length ([] :: string) + length ''forest'',
        tokens := tokens ?s @
          [Token (case keywords_map ''forest'' of Some ty \<Rightarrow> ty | None \<Rightarrow> IDENTIFIER) ''forest''
             LoxEmptyLiteral (line ?s)]\<rparr>, w)"
    by (rule identifier_token [where rest = "[]"])
       (simp_all add: NewScanner_def isAlpha_def isAlphaNumeric_def)
  then have st: "scanToken pf (?s\<lparr>start := current ?s\<rparr>) w =
    Some (\<lparr>source = ''forest'', tokens = [Token IDENTIFIER ''forest'' LoxEmptyLiteral 1],
      start = 0, current = 6, line = 1\<rparr>, w)"
    by (simp add: NewScanner_def keywords_map_def)
  have ne: "\<not> isAtEnd ?s" by (simp add: isAtEnd_def NewScanner_def)
  show ?thesis
    by (simp add: ScanTokens_def Let_def ScanTokens_loop_turn [OF ne st] ScanTokens_loop_end isAtEnd_def)
qed

subsection \<open>What the driver prints\<close>








subsection \<open>Where the scan returns\<close>

text \<open>
  With \<open>start = current\<close> at the start of a turn, every slice the turn takes lies within
  the source, and every read but the one in \<open>peekNext\<close> stands behind a test of
  \<open>isAtEnd\<close>. So a turn can only panic in \<open>peekNext\<close>, and only when the dot it looks past
  is the last byte.
\<close>

lemma addTokenAndLiteral_total:
  "start s \<le> current s \<Longrightarrow> current s \<le> length (source s) \<Longrightarrow>
   \<exists>s'. addTokenAndLiteral ty lit s = Some s'"
  by (simp add: addTokenAndLiteral_def slice_def)

lemma addToken_total:
  "start s \<le> current s \<Longrightarrow> current s \<le> length (source s) \<Longrightarrow> \<exists>s'. addToken ty s = Some s'"
  unfolding addToken_def by (rule addTokenAndLiteral_total)

lemma digit_before_run:
  assumes "1 \<le> i" "i \<le> length s" "isDigit (s ! (i - 1))"
  shows "isDigit (s ! (i + length (takeWhile isDigit (drop i s)) - 1))"
proof (cases "takeWhile isDigit (drop i s) = []")
  case True
  with assms show ?thesis by simp
next
  case False
  let ?r = "takeWhile isDigit (drop i s)"
  let ?k = "length ?r"
  from False have k: "?k - 1 < ?k" by simp
  then have "?r ! (?k - 1) = drop i s ! (?k - 1)" by (rule takeWhile_nth)
  moreover have "?r ! (?k - 1) \<in> set ?r" using k by (rule nth_mem)
  then have "isDigit (?r ! (?k - 1))" by (auto dest: set_takeWhileD)
  moreover have "i + (?k - 1) < length s"
    using takeWhile_drop_le [OF assms(2), of isDigit] False
    by (cases ?k) simp_all
  moreover have "i + ?k - 1 = i + (?k - 1)" using False by (cases ?k) simp_all
  ultimately show ?thesis by simp
qed

lemma number_total:
  assumes "start s \<le> current s" "1 \<le> current s" "current s \<le> length (source s)"
    and "isDigit (source s ! (current s - 1))" "\<not> ends_in_digit_dot (source s)"
  shows "\<exists>s'. number pf s = Some s'"
proof -
  let ?p = "current s + length (takeWhile isDigit (drop (current s) (source s)))"
  let ?s1 = "s\<lparr>current := ?p\<rparr>"
  have p: "?p \<le> length (source s)" using assms(3) by (rule takeWhile_drop_le)
  have d: "isDigit (source s ! (?p - 1))" using assms(2,3,4) by (rule digit_before_run)
  show ?thesis
  proof (cases "peek ?s1 = CHR ''.''")
    case False
    then show ?thesis
      using assms(1) p addTokenAndLiteral_total [of ?s1]
      by (simp add: number_def number_loop_eq slice_def)
  next
    case True
    then have lt: "?p < length (source s)" and dot: "source s ! ?p = CHR ''.''"
      by (auto simp: peek_def isAtEnd_def split: if_splits)
    have "?p + 1 \<noteq> length (source s)"
    proof
      assume e: "?p + 1 = length (source s)"
      then have "length (source s) - 1 = ?p" "length (source s) - 2 = ?p - 1" by arith+
      with dot d assms(2) e have "ends_in_digit_dot (source s)"
        by (simp add: ends_in_digit_dot_def)
      with assms(5) show False by simp
    qed
    with lt have lt2: "?p + 1 < length (source s)" by simp
    then have pn: "peekNext ?s1 = Some (source s ! (?p + 1))"
      by (simp add: peekNext_def index_def)
    show ?thesis
    proof (cases "isDigit (source s ! (?p + 1))")
      case False
      then show ?thesis
        using True pn assms(1) p addTokenAndLiteral_total [of ?s1]
        by (simp add: number_def number_loop_eq slice_def)
    next
      case d2: True
      let ?q = "?p + 1 + length (takeWhile isDigit (drop (?p + 1) (source s)))"
      have q: "?q \<le> length (source s)"
        using lt2 by (intro takeWhile_drop_le) simp
      show ?thesis
        using True pn d2 assms(1) lt q addTokenAndLiteral_total [of "s\<lparr>current := ?q\<rparr>"]
        by (simp add: number_def number_loop_eq slice_def advance_def index_def)
    qed
  qed
qed

lemma identifier_total:
  assumes "start s \<le> current s" "current s \<le> length (source s)"
  shows "\<exists>s'. identifier' s = Some s'"
  using assms takeWhile_drop_le [OF assms(2), of isAlphaNumeric]
    addToken_total [of "s\<lparr>current := current s + length (takeWhile isAlphaNumeric (drop (current s) (source s)))\<rparr>"]
  by (simp add: identifier'_def identifier_loop_eq slice_def)

lemma parseString_total:
  assumes "start s < current s" "current s \<le> length (source s)"
  shows "\<exists>r. parseString s w = Some r"
proof -
  let ?p = "current s + length (takeWhile (\<lambda>c. c \<noteq> CHR 0x22) (drop (current s) (source s)))"
  have p: "?p \<le> length (source s)" using assms(2) by (rule takeWhile_drop_le)
  show ?thesis
    using assms p
    by (auto simp: parseString_def parseString_loop_eq isAtEnd_def advance_def index_def slice_def
        addTokenAndLiteral_def)
qed


lemma no_report_total: "\<exists>x. r = Some x \<Longrightarrow> \<exists>y. no_report w r = Some y"
  by (auto simp: no_report_def)

lemma match_bounds:
  assumes "start s \<le> current s" "current s \<le> length (source s)"
  shows "start (snd (match c s)) \<le> current (snd (match c s)) \<and>
         current (snd (match c s)) \<le> length (source (snd (match c s)))"
  using assms by (auto simp: match_def isAtEnd_def)

lemma scanToken_total:
  assumes lt: "current s < length (source s)" and st: "start s = current s"
    and ok: "\<not> ends_in_digit_dot (source s)"
  shows "\<exists>r. scanToken pf s w = Some r"
proof -
  let ?c = "source s ! current s"
  let ?s1 = "s\<lparr>current := current s + 1\<rparr>"
  have b: "start ?s1 \<le> current ?s1" "current ?s1 \<le> length (source ?s1)" "start ?s1 < current ?s1"
    using lt st by simp_all
  have a: "\<exists>y. no_report w (addToken ty ?s1) = Some y" for ty
    using addToken_total [OF b(1,2)] by (rule no_report_total)
  have m: "\<exists>y. no_report w (addToken ty (snd (match c ?s1))) = Some y" for c ty
    using match_bounds [OF b(1,2), of c] by (intro no_report_total addToken_total) auto
  have cm: "\<exists>y. no_report w (comment_loop s2) = Some y" for s2 :: "'a Scanner"
    by (simp add: comment_loop_eq no_report_def)
  have n: "\<exists>y. no_report w (number pf ?s1) = Some y" if "isDigit ?c"
    using that b ok by (intro no_report_total number_total) simp_all
  have i: "\<exists>y. no_report w (identifier' ?s1) = Some y"
    using b by (intro no_report_total identifier_total)
  have p: "\<exists>r. parseString ?s1 w = Some r"
    using b by (intro parseString_total)
  show ?thesis
    unfolding scanToken_def advance_eq [OF lt]
    using a m cm n i p by (simp add: case_prod_unfold)
qed

lemma ScanTokens_loop_total:
  "current s \<le> length (source s) \<Longrightarrow> \<not> ends_in_digit_dot (source s) \<Longrightarrow>
   \<exists>r. ScanTokens_loop pf s w = Some r"
proof (induction pf s w rule: ScanTokens_loop.induct)
  case (1 pf scan w)
  show ?case
  proof (cases "isAtEnd scan")
    case True
    then show ?thesis by (simp add: ScanTokens_loop_end)
  next
    case False
    let ?s = "scan\<lparr>start := current scan\<rparr>"
    from False "1.prems"(2) obtain s1 w1 where st: "scanToken pf ?s w = Some (s1, w1)"
      using scanToken_total [of ?s pf w] by (auto simp: isAtEnd_def)
    from scanToken_tracks [OF st] have "source s1 = source scan" "current s1 \<le> length (source s1)"
      by (simp_all add: tracks_def)
    with "1.IH" [OF False refl st refl] "1.prems"(2) ScanTokens_loop_turn [OF False st]
    show ?thesis by simp
  qed
qed

lemma scanToken_tokens:
  assumes "scanToken pf s w = Some (s', w')"
  shows "tokens s' = tokens s \<or> (\<exists>tok. tokens s' = tokens s @ [tok] \<and> tok_type tok \<noteq> EOF)"
proof -
  from assms obtain char s1 where adv: "advance s = Some (char, s1)"
    by (auto simp: scanToken_def split: bind_splits)
  then have s1: "tokens s1 = tokens s"
    by (auto simp: advance_def split: bind_splits)
  have k: "(case keywords_map t of None \<Rightarrow> IDENTIFIER | Some ty \<Rightarrow> ty) \<noteq> EOF" for t
    using keywords_map_not_EOF [of t] by (auto split: option.splits)
  show ?thesis
    using assms s1 unfolding scanToken_def adv
    by (auto simp: no_report_Some comment_loop_eq addToken_def addTokenAndLiteral_def
        number_def number_loop_eq identifier'_def identifier_loop_eq
        parseString_def parseString_loop_eq advance_def k
        split: if_splits prod.splits bind_splits dest!: match_frame)
qed

lemma ScanTokens_loop_no_EOF:
  "ScanTokens_loop pf s w = Some (s', w') \<Longrightarrow> EOF \<notin> tok_type ` set (tokens s) \<Longrightarrow>
   EOF \<notin> tok_type ` set (tokens s')"
proof (induction pf s w rule: ScanTokens_loop.induct)
  case (1 pf scan w)
  show ?case
  proof (cases "isAtEnd scan")
    case True
    with "1.prems" show ?thesis by (simp add: ScanTokens_loop_end)
  next
    case False
    with "1.prems"(1) obtain s1 w1 where
      st: "scanToken pf (scan\<lparr>start := current scan\<rparr>) w = Some (s1, w1)"
      and rest: "ScanTokens_loop pf s1 w1 = Some (s', w')"
      by (subst (asm) ScanTokens_loop.simps) (auto split: bind_splits)
    from scanToken_tokens [OF st] "1.prems"(2) have "EOF \<notin> tok_type ` set (tokens s1)"
      by auto
    from "1.IH" [OF False refl st refl rest this] show ?thesis .
  qed
qed


lemma ScanTokens_loop_tracks:
  "ScanTokens_loop pf s w = Some (s', w') \<Longrightarrow> current s \<le> length (source s) \<Longrightarrow>
   tracks s s' \<and> isAtEnd s'"
proof (induction pf s w rule: ScanTokens_loop.induct)
  case (1 pf scan w)
  show ?case
  proof (cases "isAtEnd scan")
    case True
    with "1.prems" show ?thesis by (auto simp: ScanTokens_loop_end tracks_refl)
  next
    case False
    with "1.prems"(1) obtain s1 w1 where
      st: "scanToken pf (scan\<lparr>start := current scan\<rparr>) w = Some (s1, w1)"
      and rest: "ScanTokens_loop pf s1 w1 = Some (s', w')"
      by (subst (asm) ScanTokens_loop.simps) (auto split: bind_splits)
    have "tracks (scan\<lparr>start := current scan\<rparr>) s1" using st by (rule scanToken_tracks)
    then have t: "tracks scan s1" by (rule tracks_cong_left) simp_all
    from "1.IH" [OF False refl st refl rest tracks_le [OF t]] t show ?thesis
      by (blast intro: tracks_trans)
  qed
qed

text \<open>
  On every source that does not end in a digit and a dot the scan returns, and what it
  returns are tokens none of which is an \<open>EOF\<close> token, followed by one \<open>EOF\<close> token with the
  empty lexeme and the empty literal, on the last line of the source.
\<close>

theorem ScanTokens_returns:
  assumes "\<not> ends_in_digit_dot src"
  shows "\<exists>front s' w'.
    ScanTokens pf (NewScanner src) w =
      Some (front @ [Token EOF [] LoxEmptyLiteral (1 + newlines src)], s', w') \<and>
    EOF \<notin> tok_type ` set front"
proof -
  let ?s = "NewScanner src :: 'a Scanner"
  have le: "current ?s \<le> length (source ?s)" by (simp add: NewScanner_def)
  from ScanTokens_loop_total [OF le, of pf w] assms obtain s1 w1 where
    loop: "ScanTokens_loop pf ?s w = Some (s1, w1)"
    by (auto simp: NewScanner_def)
  from ScanTokens_loop_tracks [OF loop le] have "line s1 = 1 + newlines src"
    by (auto simp: tracks_def isAtEnd_def NewScanner_def newlines_def)
  moreover from ScanTokens_loop_no_EOF [OF loop] have "EOF \<notin> tok_type ` set (tokens s1)"
    by (simp add: NewScanner_def)
  ultimately show ?thesis
    using loop by (simp add: ScanTokens_def Let_def)
qed

subsection \<open>The sentences of the specification, one by one\<close>

text \<open>
  C1. The sentence: for every source, \<open>ScanTokens\<close> never fails by raising; lexical errors
  are only reported, and the offending input is left out of the tokens.

  The code does raise. On the source \<open>1.\<close> (a digit, then a dot as the last byte)
  \<open>number\<close> calls \<open>peekNext\<close> with \<open>current + 1 = len(source)\<close>; the guard
  \<open>current + 1 > len(source)\<close> lets it through and \<open>source[current + 1]\<close> panics with an
  index out of range. Neither \<open>ScanTokens\<close> nor \<open>Run\<close> returns.
\<close>

theorem C1_scan_panics_on_trailing_dot:
  "ScanTokens pf (NewScanner ''1.'') w = None \<and> Run pf fq fv ''1.'' w = None"
  by (simp add: Run_def ScanTokens_def ScanTokens_loop.simps NewScanner_def isAtEnd_def
      scanToken_def advance_def index_def isDigit_def no_report_def number_def number_loop_eq
      peek_def peekNext_def)




text \<open>
  C3. The sentence: for every input the scan terminates and returns a sequence that ends
  with exactly one \<open>EOF\<close> token (empty lexeme, empty literal, the line the cursor had
  reached).

  Every loop of the scanner terminates, but the scan does not always return: on \<open>12.\<close>
  it panics in \<open>peekNext\<close> (see C1) before any \<open>EOF\<close> token is made, and the process that
  tokenizes a file with these contents ends in the panic, with no exit code of its own.
\<close>

theorem C3_no_tokens_on_trailing_dot:
  "ScanTokens pf (NewScanner ''12.'') w = None \<and>
   main pf fq fv [''golox'', ''tokenize'', ''a.lox''] (\<lambda>path. Inr ''12.'') = None"
proof -
  have "ScanTokens pf (NewScanner ''12.'') w = None" for w
    by (simp add: ScanTokens_def ScanTokens_loop.simps NewScanner_def isAtEnd_def
      scanToken_def advance_def index_def isDigit_def no_report_def number_def number_loop_eq
      peek_def peekNext_def)
  then show ?thesis
    by (simp add: main_def RunFile_def Run_def)
qed

text \<open>
  C4. The sentence: after a run of digits, a dot is part of the number only if a digit
  follows it; where none follows, the scan gives a \<open>NUMBER\<close> token for the digits and then
  a \<open>DOT\<close> token.

  This is what the code does when some byte follows the dot: \<open>1.x\<close> gives \<open>NUMBER 1\<close>,
  \<open>DOT\<close>, \<open>IDENTIFIER x\<close>, \<open>EOF\<close>. When the dot is the last byte of the source, as in the
  spec's own example \<open>1.\<close>, the look past the dot reads \<open>source[current + 1]\<close> out of range
  and the turn panics: neither token is made.
\<close>

theorem C4_trailing_dot_panics:
  "scanToken pf (NewScanner ''1.'') w = None \<and>
   ScanTokens pf (NewScanner ''1.x'') w =
     Some ([Token NUMBER ''1'' (LoxNumber (pf ''1'')) 1, Token DOT ''.'' LoxEmptyLiteral 1,
        Token IDENTIFIER ''x'' LoxEmptyLiteral 1, Token EOF [] LoxEmptyLiteral 1],
       \<lparr>source = ''1.x'',
        tokens = [Token NUMBER ''1'' (LoxNumber (pf ''1'')) 1, Token DOT ''.'' LoxEmptyLiteral 1,
          Token IDENTIFIER ''x'' LoxEmptyLiteral 1, Token EOF [] LoxEmptyLiteral 1],
        start = 2, current = 3, line = 1\<rparr>, w)"
  by (simp add: ScanTokens_def Let_def ScanTokens_loop.simps NewScanner_def isAtEnd_def
      scanToken_def advance_def index_def isDigit_def isAlpha_def no_report_def number_def number_loop_eq
      peek_def peekNext_def slice_def addToken_def addTokenAndLiteral_def identifier'_def
      identifier_loop_eq keywords_map_def)

text \<open>
  C5. The sentence: a string literal that closes before the end of the input runs up to
  the next unescaped \<open>"\<close>; the literal of the \<open>STRING\<close> token is what stands strictly
  between the quotes and its lexeme is the quoted form, both quotes included.

  The scanner has no escapes: the loop of \<open>parseString\<close> stops at the first byte \<open>"\<close>
  whatever stands before it. On the six bytes quote, \<open>a\<close>, backslash, quote, \<open>b\<close>, quote
  the next unescaped quote is the last byte, and the value between the quotes would be
  the four bytes in the middle; the code ends the literal at the quote after the
  backslash, with the two bytes \<open>a\<close> and backslash as its value, goes on to the identifier
  \<open>b\<close> and reports the last quote as an unterminated string.
\<close>

theorem C5_escaped_quote_counterexample:
  "map_option (\<lambda>n. take n (''a'' @ [CHR 0x5C, CHR 0x22] @ ''b'' @ [CHR 0x22]))
     (next_unescaped_quote (''a'' @ [CHR 0x5C, CHR 0x22] @ ''b'' @ [CHR 0x22])) =
     Some (''a'' @ [CHR 0x5C, CHR 0x22] @ ''b'') \<and>
   map_option fst (ScanTokens (\<lambda>s. s)
     (NewScanner (CHR 0x22 # ''a'' @ [CHR 0x5C, CHR 0x22] @ ''b'' @ [CHR 0x22])) World0) =
     Some [Token STRING (CHR 0x22 # ''a'' @ [CHR 0x5C, CHR 0x22]) (LoxString (''a'' @ [CHR 0x5C])) 1,
           Token IDENTIFIER ''b'' LoxEmptyLiteral 1,
           Token EOF [] LoxEmptyLiteral 1]"
  by code_simp

text \<open>
  C5, amended: the literal ends at the next byte \<open>"\<close>, escaped or not. Whenever the cursor
  stands at a \<open>"\<close> that is followed by bytes \<open>body\<close> without a \<open>"\<close> and then a \<open>"\<close>, the
  turn of the loop of \<open>ScanTokens\<close> consumes exactly these \<open>length body + 2\<close> bytes and
  adds one \<open>STRING\<close> token whose literal is \<open>body\<close> and whose lexeme is \<open>body\<close> between the
  two quotes. (\<open>body\<close> may hold backslashes, also as its last byte.)
\<close>

theorem C5_string_literal:
  assumes "source scan = pre @ CHR 0x22 # body @ CHR 0x22 # rest"
    and "current scan = length pre"
    and "CHR 0x22 \<notin> set body"
  shows "scanToken pf (scan\<lparr>start := current scan\<rparr>) w =
    Some (scan\<lparr>start := length pre, current := length pre + length body + 2,
        line := line scan + newlines body,
        tokens := tokens scan @
          [Token STRING (CHR 0x22 # body @ [CHR 0x22]) (LoxString body) (line scan + newlines body)]\<rparr>, w)"
  using assms by (rule string_token)

theorem C5_string_literal_witness:
  "CHR 0x22 \<notin> set (''a'' @ [CHR 0x5C]) \<and>
   scanToken (\<lambda>s. s) ((NewScanner (CHR 0x22 # ''a'' @ [CHR 0x5C, CHR 0x22] @ ''b'' @ [CHR 0x22]))\<lparr>start := 0\<rparr>) World0 =
   Some (\<lparr>source = CHR 0x22 # ''a'' @ [CHR 0x5C, CHR 0x22] @ ''b'' @ [CHR 0x22],
       tokens = [Token STRING (CHR 0x22 # ''a'' @ [CHR 0x5C, CHR 0x22]) (LoxString (''a'' @ [CHR 0x5C])) 1],
       start = 0, current = 4, line = 1\<rparr>, World0)"
  using C5_string_literal [of "NewScanner (CHR 0x22 # ''a'' @ [CHR 0x5C, CHR 0x22] @ ''b'' @ [CHR 0x22])"
      "[]" "''a'' @ [CHR 0x5C]" "''b'' @ [CHR 0x22]" "\<lambda>s. s" World0]
  by (simp add: NewScanner_def newlines_def)

text \<open>
  C6. An unterminated string: the scan of \<open>src\<close> has come, after some turns of the loop,
  to a \<open>"\<close> after which the source holds no further \<open>"\<close>. Then the scan ends with the
  tokens it had before and the \<open>EOF\<close> token (no \<open>STRING\<close> token is made), it writes exactly
  one more diagnostic, \<open>[line N] Error: Unterminated string.\<close>, where \<open>N\<close> is the line
  counter advanced by every newline of the source, those inside the string included
  (the string started on line \<open>1 + newlines pre\<close>), it sets \<open>hadError\<close>, and the process
  that tokenizes a file with these contents exits with code 65.
\<close>

theorem C6_unterminated_string:
  assumes "ScanTokens_turns pf n (NewScanner src) w0 = Some (scan, w)"
    and "src = pre @ CHR 0x22 # body"
    and "current scan = length pre"
    and "CHR 0x22 \<notin> set body"
    and "3 \<le> length args" and "args ! 1 = ''tokenize''" and "fs (args ! 2) = Inr src"
  shows "ScanTokens pf (NewScanner src) w0 =
    Some (tokens scan @ [Token EOF [] LoxEmptyLiteral (1 + newlines src)],
      scan\<lparr>start := length pre, current := length src, line := 1 + newlines src,
        tokens := tokens scan @ [Token EOF [] LoxEmptyLiteral (1 + newlines src)]\<rparr>,
      w\<lparr>stderr := stderr w @ ''[line '' @ Itoa (1 + newlines src) @ ''] Error: Unterminated string.\<newline>'',
        hadError := True\<rparr>) \<and>
    line scan = 1 + newlines pre \<and>
    map_option fst (main pf fq fv args fs) = Some 65"
proof -
  let ?W = "World0\<lparr>stderr := ''Logs from your program will appear here!\<newline>''\<rparr>"
  from ScanTokens_turns_any_world [OF assms(1), of ?W] obtain w2 where
    reach2: "ScanTokens_turns pf n (NewScanner src) ?W = Some (scan, w2)" by blast
  note run = unterminated_scan [OF reach2 assms(2-4)]
  have "main pf fq fv args fs = Some (65, Run_print fq fv
      (tokens scan @ [Token EOF [] LoxEmptyLiteral (1 + newlines src)])
      (LoxError (1 + newlines src) ''Unterminated string.'' w2))"
    using main_tokenize [where args = args and fs = fs and src = src, OF assms(5-7) run, of fq fv]
    by simp
  moreover from reached_from_NewScanner [OF assms(1)] assms(2,3)
  have "line scan = 1 + newlines pre" by simp
  ultimately show ?thesis
    using unterminated_scan [OF assms(1-4)] by (simp add: LoxError_def LoxReport_def)
qed

theorem C6_unterminated_string_witness:
  "ScanTokens_turns (\<lambda>s. s) 2 (NewScanner (''x='' @ CHR 0x22 # ''a\<newline>b'')) World0 =
     Some (\<lparr>source = ''x='' @ CHR 0x22 # ''a\<newline>b'',
       tokens = [Token IDENTIFIER ''x'' LoxEmptyLiteral 1, Token EQUAL ''='' LoxEmptyLiteral 1],
       start = 1, current = 2, line = 1\<rparr>, World0) \<and>
   ScanTokens (\<lambda>s. s) (NewScanner (''x='' @ CHR 0x22 # ''a\<newline>b'')) World0 =
     Some ([Token IDENTIFIER ''x'' LoxEmptyLiteral 1, Token EQUAL ''='' LoxEmptyLiteral 1,
        Token EOF [] LoxEmptyLiteral 2],
       \<lparr>source = ''x='' @ CHR 0x22 # ''a\<newline>b'',
        tokens = [Token IDENTIFIER ''x'' LoxEmptyLiteral 1, Token EQUAL ''='' LoxEmptyLiteral 1,
          Token EOF [] LoxEmptyLiteral 2],
        start = 2, current = 6, line = 2\<rparr>,
       \<lparr>hadError = True, stdout = [], stderr = ''[line 2] Error: Unterminated string.\<newline>''\<rparr>) \<and>
   map_option fst (main (\<lambda>s. s) (\<lambda>s. s) (\<lambda>s. s) [''golox'', ''tokenize'', ''a.lox'']
     (\<lambda>path. Inr (''x='' @ CHR 0x22 # ''a\<newline>b''))) = Some 65"
proof -
  let ?src = "''x='' @ CHR 0x22 # ''a\<newline>b''"
  let ?toks = "[Token IDENTIFIER ''x'' LoxEmptyLiteral 1, Token EQUAL ''='' LoxEmptyLiteral 1] :: string Token list"
  let ?scan = "\<lparr>source = ?src, tokens = ?toks, start = 1, current = 2, line = 1\<rparr>"
  have reach: "ScanTokens_turns (\<lambda>s. s) 2 (NewScanner ?src) World0 = Some (?scan, World0)"
    by code_simp
  have src: "?src = ''x='' @ CHR 0x22 # ''a\<newline>b''" by simp
  have cur: "current ?scan = length ''x=''" by simp
  have body: "CHR 0x22 \<notin> set ''a\<newline>b''" by simp
  have args: "3 \<le> length [''golox'', ''tokenize'', ''a.lox'']"
    "[''golox'', ''tokenize'', ''a.lox''] ! 1 = ''tokenize''"
    "(\<lambda>path. Inr ?src :: string + string) ([''golox'', ''tokenize'', ''a.lox''] ! 2) = Inr ?src"
    by simp_all
  have itoa: "Itoa (Suc (Suc 0)) = ''2''" by code_simp
  from C6_unterminated_string [OF reach src cur body args, of "\<lambda>s. s" "\<lambda>s. s"] reach show ?thesis
    by (simp add: newlines_def World0_def itoa)
qed

text \<open>
  C7. The error flag and the exit code. \<open>hadError\<close> is false when the process starts;
  \<open>LoxReport\<close>, through which every diagnostic goes, sets it; a scan that starts with the
  flag set ends with it set, and printing the tokens leaves it as it is. In a run of
  \<open>tokenize\<close> on a readable file whose scan completes, the flag is set at the end exactly
  when the scan has written a diagnostic (the diagnostic stream holds more than the line
  \<open>main\<close> writes at its start), and the process exits with 65 in that case and with 0
  otherwise.
\<close>

theorem C7_error_flag_and_exit_code:
  assumes "3 \<le> length args" and "args ! 1 = ''tokenize''" and "fs (args ! 2) = Inr src"
    and "ScanTokens pf (NewScanner src)
          (World0\<lparr>stderr := ''Logs from your program will appear here!\<newline>''\<rparr>) =
         Some (toks, scanner, w')"
    and "ScanTokens pf scan1 w1 = Some (toks1, scan1', w1')"
  shows "\<not> hadError World0 \<and>
    hadError (LoxReport ln wher message w) \<and>
    (hadError w1 \<longrightarrow> hadError w1') \<and>
    hadError (Run_print fq fv toks1 w1') = hadError w1' \<and>
    hadError w' = (stderr w' \<noteq> ''Logs from your program will appear here!\<newline>'') \<and>
    main pf fq fv args fs =
      Some (if stderr w' \<noteq> ''Logs from your program will appear here!\<newline>'' then 65 else 0,
        Run_print fq fv toks w')"
proof -
  from ScanTokens_world [OF assms(4)] obtain extra where
    "stderr w' = ''Logs from your program will appear here!\<newline>'' @ extra"
    "hadError w' = (extra \<noteq> [])"
    by (auto simp: World0_def)
  then have flag: "hadError w' = (stderr w' \<noteq> ''Logs from your program will appear here!\<newline>'')"
    by simp
  from ScanTokens_world [OF assms(5)] have keep: "hadError w1 \<longrightarrow> hadError w1'"
    by auto
  from main_tokenize [where args = args and fs = fs and src = src, OF assms(1-4), of fq fv] flag keep
  show ?thesis
    by (simp add: World0_def LoxReport_def Run_print_fields)
qed

theorem C7_error_flag_and_exit_code_witness:
  "ScanTokens (\<lambda>s. s) (NewScanner ''@'')
     (World0\<lparr>stderr := ''Logs from your program will appear here!\<newline>''\<rparr>) =
     Some ([Token EOF [] LoxEmptyLiteral 1],
       \<lparr>source = ''@'', tokens = [Token EOF [] LoxEmptyLiteral 1], start = 0, current = 1, line = 1\<rparr>,
       \<lparr>hadError = True, stdout = [],
        stderr = ''Logs from your program will appear here!\<newline>[line 1] Error: Unexpected character: @\<newline>''\<rparr>) \<and>
   main (\<lambda>s. s) (\<lambda>s. s) (\<lambda>s. s) [''golox'', ''tokenize'', ''a.lox''] (\<lambda>path. Inr ''@'') =
     Some (65, \<lparr>hadError = True, stdout = ''%!s(main.TokenType=38)  null\<newline>'',
        stderr = ''Logs from your program will appear here!\<newline>[line 1] Error: Unexpected character: @\<newline>''\<rparr>)"
proof -
  let ?W = "World0\<lparr>stderr := ''Logs from your program will appear here!\<newline>''\<rparr>"
  let ?w' = "\<lparr>hadError = True, stdout = [],
        stderr = ''Logs from your program will appear here!\<newline>[line 1] Error: Unexpected character: @\<newline>''\<rparr>"
  have run: "ScanTokens (\<lambda>s. s) (NewScanner ''@'') ?W =
     Some ([Token EOF [] LoxEmptyLiteral 1],
       \<lparr>source = ''@'', tokens = [Token EOF [] LoxEmptyLiteral 1], start = 0, current = 1, line = 1\<rparr>, ?w')"
    by code_simp
  have args: "3 \<le> length [''golox'', ''tokenize'', ''a.lox'']"
    "[''golox'', ''tokenize'', ''a.lox''] ! 1 = ''tokenize''"
    "(\<lambda>path. Inr ''@'' :: string + string) ([''golox'', ''tokenize'', ''a.lox''] ! 2) = Inr ''@''"
    by simp_all
  have pr: "Run_print (\<lambda>s. s) (\<lambda>s. s) [Token EOF [] LoxEmptyLiteral 1 :: string Token] ?w' =
    \<lparr>hadError = True, stdout = ''%!s(main.TokenType=38)  null\<newline>'',
        stderr = ''Logs from your program will appear here!\<newline>[line 1] Error: Unexpected character: @\<newline>''\<rparr>"
    by code_simp
  from C7_error_flag_and_exit_code [OF args run run, of 1 "[]" "[]" World0 "\<lambda>s. s" "\<lambda>s. s"] run pr
  show ?thesis by simp
qed

text \<open>
  C8. A word starts with a letter or an underscore, the letters being \<open>a\<close> to \<open>z\<close> and \<open>A\<close>
  to \<open>Z\<close>. Whenever the cursor stands at the start of \<open>word\<close>, a run of letters, digits
  and underscores that is maximal (what follows, if anything, is none of them), the turn
  of the loop consumes the whole word and adds one token with the word as its lexeme.
  Its kind is spelled out: \<open>AND\<close> for the word \<open>and\<close>, \<open>CLASS\<close> for \<open>class\<close>, and so on for
  each of the sixteen reserved spellings when the whole word is that spelling, and
  \<open>IDENTIFIER\<close> for every other word. In particular \<open>forest\<close> is the one token
  \<open>IDENTIFIER forest\<close>, followed by \<open>EOF\<close>.
\<close>

theorem C8_identifier_or_keyword:
  assumes "source scan = pre @ word @ rest"
    and "current scan = length pre"
    and "word \<noteq> []"
    and "hd word \<in> set ''abcdefghijklmnopqrstuvwxyzABCDEFGHIJKLMNOPQRSTUVWXYZ_''"
    and "set word \<subseteq> set ''abcdefghijklmnopqrstuvwxyzABCDEFGHIJKLMNOPQRSTUVWXYZ_0123456789''"
    and "rest = [] \<or> hd rest \<notin> set ''abcdefghijklmnopqrstuvwxyzABCDEFGHIJKLMNOPQRSTUVWXYZ_0123456789''"
  shows "scanToken pf (scan\<lparr>start := current scan\<rparr>) w =
      Some (scan\<lparr>start := length pre, current := length pre + length word,
        tokens := tokens scan @
          [Token
            (if word = ''and'' then AND
             else if word = ''class'' then CLASS
             else if word = ''else'' then ELSE
             else if word = ''false'' then FALSE
             else if word = ''for'' then FOR
             else if word = ''fun'' then FUN
             else if word = ''if'' then IF
             else if word = ''nil'' then NIL
             else if word = ''or'' then OR
             else if word = ''print'' then PRINT
             else if word = ''return'' then RETURN
             else if word = ''super'' then SUPER
             else if word = ''this'' then THIS
             else if word = ''true'' then TRUE
             else if word = ''var'' then VAR
             else if word = ''while'' then WHILE
             else IDENTIFIER)
            word LoxEmptyLiteral (line scan)]\<rparr>, w) \<and>
    map_option fst (ScanTokens pf (NewScanner ''forest'') w) =
      Some [Token IDENTIFIER ''forest'' LoxEmptyLiteral 1, Token EOF [] LoxEmptyLiteral 1]"
proof -
  have h: "isAlpha (hd word)" "\<forall>c\<in>set word. isAlphaNumeric c"
    "rest = [] \<or> \<not> isAlphaNumeric (hd rest)"
    using assms(4-6) unfolding isAlpha_iff isAlphaNumeric_iff by blast+
  have k: "(case keywords_map word of Some ty \<Rightarrow> ty | None \<Rightarrow> IDENTIFIER) =
            (if word = ''and'' then AND
             else if word = ''class'' then CLASS
             else if word = ''else'' then ELSE
             else if word = ''false'' then FALSE
             else if word = ''for'' then FOR
             else if word = ''fun'' then FUN
             else if word = ''if'' then IF
             else if word = ''nil'' then NIL
             else if word = ''or'' then OR
             else if word = ''print'' then PRINT
             else if word = ''return'' then RETURN
             else if word = ''super'' then SUPER
             else if word = ''this'' then THIS
             else if word = ''true'' then TRUE
             else if word = ''var'' then VAR
             else if word = ''while'' then WHILE
             else IDENTIFIER)"
    by (simp add: keywords_map_def)
  from identifier_token [OF assms(1-3) h, of pf w] scan_forest [of pf w] show ?thesis
    unfolding k by simp
qed

theorem C8_identifier_or_keyword_witness:
  "hd ''while'' \<in> set ''abcdefghijklmnopqrstuvwxyzABCDEFGHIJKLMNOPQRSTUVWXYZ_'' \<and>
   hd '' x'' \<notin> set ''abcdefghijklmnopqrstuvwxyzABCDEFGHIJKLMNOPQRSTUVWXYZ_0123456789'' \<and>
   scanToken (\<lambda>s. s) \<lparr>source = ''a while x'', tokens = [], start = 2, current = 2, line = 1\<rparr> World0 =
     Some (\<lparr>source = ''a while x'', tokens = [Token WHILE ''while'' LoxEmptyLiteral 1],
       start = 2, current = 7, line = 1\<rparr>, World0)"
proof -
  let ?scan = "\<lparr>source = ''a while x'', tokens = [], start = 0, current = 2, line = 1\<rparr> :: string Scanner"
  have h: "source ?scan = ''a '' @ ''while'' @ '' x''" "current ?scan = length ''a ''" "''while'' \<noteq> []"
    "hd ''while'' \<in> set ''abcdefghijklmnopqrstuvwxyzABCDEFGHIJKLMNOPQRSTUVWXYZ_''"
    "set ''while'' \<subseteq> set ''abcdefghijklmnopqrstuvwxyzABCDEFGHIJKLMNOPQRSTUVWXYZ_0123456789''"
    "'' x'' = [] \<or> hd '' x'' \<notin> set ''abcdefghijklmnopqrstuvwxyzABCDEFGHIJKLMNOPQRSTUVWXYZ_0123456789''"
    by simp_all
  from C8_identifier_or_keyword [OF h, of "\<lambda>s. s" World0] h(4,6) show ?thesis
    by simp
qed

text \<open>
  C9. A \<open>STRING\<close> token that spans several lines carries the line of its closing quote,
  not that of its opening quote. The scan of \<open>src\<close> has come, after some turns of the loop,
  to an opening quote at index \<open>length pre\<close>; the closing quote stands at index
  \<open>length pre + length body + 1\<close>. The token's line is the physical line of the closing
  quote, which is the line of the opening quote (the value of \<open>line\<close> when the token
  starts) plus the number of newlines in the body.
\<close>

theorem C9_string_token_line:
  assumes "ScanTokens_turns pf n (NewScanner src) w0 = Some (scan, w)"
    and "src = pre @ CHR 0x22 # body @ CHR 0x22 # rest"
    and "current scan = length pre"
    and "CHR 0x22 \<notin> set body"
  shows "scanToken pf (scan\<lparr>start := current scan\<rparr>) w =
    Some (scan\<lparr>start := length pre, current := length pre + length body + 2,
        line := line_of src (length pre + length body + 1),
        tokens := tokens scan @
          [Token STRING (CHR 0x22 # body @ [CHR 0x22]) (LoxString body)
             (line_of src (length pre + length body + 1))]\<rparr>, w) \<and>
    line_of src (length pre + length body + 1) = line_of src (length pre) + newlines body"
proof -
  from reached_from_NewScanner [OF assms(1)] assms(2,3)
  have s: "source scan = src" and ln: "line scan = 1 + newlines pre"
    by simp_all
  have l: "line_of src (length pre + length body + 1) = line scan + newlines body"
    "line_of src (length pre) = line scan"
    using ln assms(2) by (simp_all add: line_of_def newlines_def)
  from string_token [OF s [unfolded assms(2)] assms(3,4), of pf w] l show ?thesis
    by simp
qed

theorem C9_string_token_line_witness:
  "ScanTokens_turns (\<lambda>s. s) 1 (NewScanner (''\<newline>'' @ CHR 0x22 # ''a\<newline>b'' @ [CHR 0x22])) World0 =
     Some (\<lparr>source = ''\<newline>'' @ CHR 0x22 # ''a\<newline>b'' @ [CHR 0x22], tokens = [],
       start = 0, current = 1, line = 2\<rparr>, World0) \<and>
   scanToken (\<lambda>s. s) \<lparr>source = ''\<newline>'' @ CHR 0x22 # ''a\<newline>b'' @ [CHR 0x22], tokens = [],
       start = 1, current = 1, line = 2\<rparr> World0 =
     Some (\<lparr>source = ''\<newline>'' @ CHR 0x22 # ''a\<newline>b'' @ [CHR 0x22],
       tokens = [Token STRING (CHR 0x22 # ''a\<newline>b'' @ [CHR 0x22]) (LoxString ''a\<newline>b'') 3],
       start = 1, current = 6, line = 3\<rparr>, World0) \<and>
   line_of (''\<newline>'' @ CHR 0x22 # ''a\<newline>b'' @ [CHR 0x22]) 1 = 2"
proof -
  let ?src = "''\<newline>'' @ CHR 0x22 # ''a\<newline>b'' @ [CHR 0x22]"
  let ?scan = "\<lparr>source = ?src, tokens = [], start = 0, current = 1, line = 2\<rparr> :: string Scanner"
  have reach: "ScanTokens_turns (\<lambda>s. s) 1 (NewScanner ?src) World0 = Some (?scan, World0)"
    by (simp add: NewScanner_def isAtEnd_def scanToken_def advance_def index_def)
  have src: "?src = ''\<newline>'' @ CHR 0x22 # ''a\<newline>b'' @ CHR 0x22 # []" by simp
  have cur: "current ?scan = length ''\<newline>''" by simp
  have body: "CHR 0x22 \<notin> set ''a\<newline>b''" by simp
  from C9_string_token_line [OF reach src cur body] reach show ?thesis
    by (simp add: line_of_def newlines_def)
qed

text \<open>
  C10. Scanning is deterministic: the tokens of a source (their kinds, lexemes, literals
  and lines) depend on the source alone. The scanner is built afresh from the source by
  \<open>NewScanner\<close>; the only other state the scan can see is the process state (the flag
  \<open>hadError\<close> and what has been written so far), and whatever that state is, the scan
  gives the same tokens, or panics all the same.
\<close>

theorem C10_scan_deterministic:
  "map_option fst (ScanTokens pf (NewScanner src) w1) =
   map_option fst (ScanTokens pf (NewScanner src) w2)"
proof -
  let ?s = "NewScanner src :: 'a Scanner"
  show ?thesis
  proof (cases "ScanTokens_loop pf ?s w1")
    case None
    with ScanTokens_loop_any_world [of pf ?s w1 w2] show ?thesis
      by (simp add: ScanTokens_def)
  next
    case (Some r)
    with ScanTokens_loop_any_world [of pf ?s w1 w2] show ?thesis
      by (cases r; cases "ScanTokens_loop pf ?s w2") (auto simp: ScanTokens_def Let_def)
  qed
qed

end
